theory Spec2Isabelle
  imports
    Main
    "HOL-Library.Product_Lexorder"
    "HOL-Library.Sublist"
    "HOL-Library.Multiset"
begin

section \<open>Library values used by todo.py\<close>

text \<open>
  The program is a Python script, \<^verbatim>\<open>todo.py\<close>. Its own code is embedded below
  function by function. The values it takes from Python's standard library
  (\<^verbatim>\<open>datetime\<close>, \<^verbatim>\<open>str\<close>, \<^verbatim>\<open>int\<close>, \<^verbatim>\<open>list.sort\<close>) are modelled by their
  documented behaviour.

  A Python exception is a value of \<open>error\<close>.
\<close>

datatype error = ValueError | OverflowError

subsection \<open>Strings\<close>

text \<open>
  A \<^verbatim>\<open>str\<close> is a \<open>string\<close>; a character stands for the code point of the same
  number, so the model covers text of code points below 256.
  \<^verbatim>\<open>str.isspace\<close>, \<^verbatim>\<open>str.strip\<close> and \<^verbatim>\<open>str.lower\<close> on that range:
\<close>

definition isspace :: "char \<Rightarrow> bool" where
  "isspace c =
     (let n = (of_char c :: nat)
      in (9 \<le> n \<and> n \<le> 13) \<or> (28 \<le> n \<and> n \<le> 32) \<or> n = 133 \<or> n = 160)"

definition strip :: "string \<Rightarrow> string" where
  "strip s = rev (dropWhile isspace (rev (dropWhile isspace s)))"

definition lower_char :: "char \<Rightarrow> char" where
  "lower_char c =
     (let n = (of_char c :: nat)
      in if (65 \<le> n \<and> n \<le> 90) \<or> (192 \<le> n \<and> n \<le> 222 \<and> n \<noteq> 215)
         then char_of (n + 32) else c)"

definition lower :: "string \<Rightarrow> string" where
  "lower s = map lower_char s"

definition digit_val :: "char \<Rightarrow> int option" where
  "digit_val c =
     (let n = (of_char c :: nat)
      in if 48 \<le> n \<and> n \<le> 57 then Some (int n - 48) else None)"

definition is_digit :: "char \<Rightarrow> bool" where
  "is_digit c = (digit_val c \<noteq> None)"

text \<open>
  \<^verbatim>\<open>int(s)\<close> for a string, base ten. The whitespace around the number is dropped:
  the whitespace of C (9 to 13 and 32) and, replaced by a space beforehand, the
  whitespace beyond ASCII (133 and 160 below 256). The separators 28 to 31, which
  \<^verbatim>\<open>str.strip\<close> removes, are not dropped. One sign may lead, and the digits may be
  grouped by single underscores. Anything else raises \<^verbatim>\<open>ValueError\<close>, which is
  \<open>None\<close> here, and so does a text of more digits than the interpreter's limit, 4300
  unless configured (an id has at most 39 digits).
\<close>

definition int_space :: "char \<Rightarrow> bool" where
  "int_space c =
     (let n = (of_char c :: nat)
      in (9 \<le> n \<and> n \<le> 13) \<or> n = 32 \<or> n = 133 \<or> n = 160)"

definition int_strip :: "string \<Rightarrow> string" where
  "int_strip s = rev (dropWhile int_space (rev (dropWhile int_space s)))"

definition MAX_STR_DIGITS :: nat where
  "MAX_STR_DIGITS = 4300"

fun int_digits :: "string \<Rightarrow> int \<Rightarrow> int option" where
  "int_digits [] acc = Some acc"
| "int_digits [c] acc =
     (case digit_val c of None \<Rightarrow> None | Some v \<Rightarrow> Some (acc * 10 + v))"
| "int_digits (c # d # ds) acc =
     (if c = CHR ''_''
      then (case digit_val d of None \<Rightarrow> None | Some v \<Rightarrow> int_digits ds (acc * 10 + v))
      else (case digit_val c of None \<Rightarrow> None | Some v \<Rightarrow> int_digits (d # ds) (acc * 10 + v)))"

definition int_unsigned :: "string \<Rightarrow> int option" where
  "int_unsigned s =
     (case s of [] \<Rightarrow> None
      | c # cs \<Rightarrow> (case digit_val c of None \<Rightarrow> None | Some v \<Rightarrow> int_digits cs v))"

definition py_int :: "string \<Rightarrow> int option" where
  "py_int s =
     (case int_strip s of [] \<Rightarrow> None
      | c # cs \<Rightarrow>
          if length (filter is_digit (c # cs)) > MAX_STR_DIGITS then None
          else if c = CHR ''-'' then map_option uminus (int_unsigned cs)
          else if c = CHR ''+'' then int_unsigned cs
          else int_unsigned (c # cs))"

subsection \<open>datetime\<close>

text \<open>
  A naive \<^verbatim>\<open>datetime\<close> is a day, by its proleptic Gregorian ordinal
  (\<^verbatim>\<open>toordinal()\<close>, day 1 is 0001-01-01), and the time of day in microseconds.
  The type holds the days 1 to \<open>MAXORDINAL\<close> (9999-12-31), and
  \<^verbatim>\<open>datetime.max\<close> is the last microsecond of the last day.
\<close>

record datetime =
  toordinal :: int
  time_us :: nat

definition MAXORDINAL :: int where
  "MAXORDINAL = 3652059"

definition US_PER_DAY :: nat where
  "US_PER_DAY = 86400000000"

definition datetime_max :: datetime where
  "datetime_max = \<lparr>toordinal = MAXORDINAL, time_us = US_PER_DAY - 1\<rparr>"

definition valid_datetime :: "datetime \<Rightarrow> bool" where
  "valid_datetime d = (1 \<le> toordinal d \<and> toordinal d \<le> MAXORDINAL \<and> time_us d < US_PER_DAY)"

text \<open>Comparison of two datetimes: by day, then by time of day.\<close>

definition dt_key :: "datetime \<Rightarrow> int \<times> nat" where
  "dt_key d = (toordinal d, time_us d)"

text \<open>\<^verbatim>\<open>d.weekday()\<close>: Monday is 0, Sunday is 6.\<close>

definition weekday :: "datetime \<Rightarrow> int" where
  "weekday d = (toordinal d + 6) mod 7"

text \<open>
  \<^verbatim>\<open>d + timedelta(days=n)\<close>: the time of day is kept; a day outside the range of the
  type raises \<^verbatim>\<open>OverflowError\<close>.
\<close>

definition add_days :: "datetime \<Rightarrow> int \<Rightarrow> error + datetime" where
  "add_days d n =
     (let o' = toordinal d + n
      in if 1 \<le> o' \<and> o' \<le> MAXORDINAL then Inr (d\<lparr>toordinal := o'\<rparr>)
         else Inl OverflowError)"

text \<open>The calendar: leap years, lengths of the months, and the ordinal of a date.\<close>

definition is_leap :: "int \<Rightarrow> bool" where
  "is_leap y = (y mod 4 = 0 \<and> (y mod 100 \<noteq> 0 \<or> y mod 400 = 0))"

definition days_in_month :: "int \<Rightarrow> int \<Rightarrow> int" where
  "days_in_month y m =
     (if m = 2 then (if is_leap y then 29 else 28)
      else if m = 4 \<or> m = 6 \<or> m = 9 \<or> m = 11 then 30 else 31)"

definition days_before_year :: "int \<Rightarrow> int" where
  "days_before_year y =
     (let y' = y - 1 in y' * 365 + y' div 4 - y' div 100 + y' div 400)"

definition days_before_month :: "int \<Rightarrow> int \<Rightarrow> int" where
  "days_before_month y m =
     [0, 0, 31, 59, 90, 120, 151, 181, 212, 243, 273, 304, 334] ! nat m
       + (if m > 2 \<and> is_leap y then 1 else 0)"

definition ymd2ord :: "int \<Rightarrow> int \<Rightarrow> int \<Rightarrow> int" where
  "ymd2ord y m d = days_before_year y + days_before_month y m + d"

text \<open>
  \<^verbatim>\<open>datetime(y, m, d)\<close>: midnight of that date, \<^verbatim>\<open>ValueError\<close> when it is not a date
  of the calendar.
\<close>

definition datetime_new :: "int \<Rightarrow> int \<Rightarrow> int \<Rightarrow> error + datetime" where
  "datetime_new y m d =
     (if 1 \<le> y \<and> y \<le> 9999 \<and> 1 \<le> m \<and> m \<le> 12 \<and> 1 \<le> d \<and> d \<le> days_in_month y m
      then Inr \<lparr>toordinal = ymd2ord y m d, time_us = 0\<rparr>
      else Inl ValueError)"

subsection \<open>strptime with the format %m/%d/%Y\<close>

text \<open>
  \<^verbatim>\<open>datetime.strptime(s, "%m/%d/%Y")\<close> matches the regular expression
  \<^verbatim>\<open>(1[0-2]|0[1-9]|[1-9])/(3[0-1]|[1-2]\d|0[1-9]|[1-9]| [1-9])/(\d\d\d\d)\<close>
  at the start of \<open>s\<close>, refuses text left over after the match, and builds the
  date. Each group lists its alternatives in the order the expression tries them;
  a match is the first way through all five parts.
\<close>

definition digit_in :: "char \<Rightarrow> int \<Rightarrow> int \<Rightarrow> bool" where
  "digit_in c lo hi = (case digit_val c of None \<Rightarrow> False | Some v \<Rightarrow> lo \<le> v \<and> v \<le> hi)"

definition dv :: "char \<Rightarrow> int" where
  "dv c = (case digit_val c of None \<Rightarrow> 0 | Some v \<Rightarrow> v)"

definition two_chars :: "(char \<Rightarrow> bool) \<Rightarrow> (char \<Rightarrow> bool) \<Rightarrow> (char \<Rightarrow> char \<Rightarrow> int)
    \<Rightarrow> string \<Rightarrow> (int \<times> string) list" where
  "two_chars p q v s =
     (case s of a # b # r \<Rightarrow> (if p a \<and> q b then [(v a b, r)] else []) | _ \<Rightarrow> [])"

definition one_char :: "(char \<Rightarrow> bool) \<Rightarrow> string \<Rightarrow> (int \<times> string) list" where
  "one_char p s = (case s of a # r \<Rightarrow> (if p a then [(dv a, r)] else []) | _ \<Rightarrow> [])"

definition re_m :: "string \<Rightarrow> (int \<times> string) list" where
  "re_m s =
     two_chars (\<lambda>a. a = CHR ''1'') (\<lambda>b. digit_in b 0 2) (\<lambda>a b. 10 + dv b) s
     @ two_chars (\<lambda>a. a = CHR ''0'') (\<lambda>b. digit_in b 1 9) (\<lambda>a b. dv b) s
     @ one_char (\<lambda>a. digit_in a 1 9) s"

definition re_d :: "string \<Rightarrow> (int \<times> string) list" where
  "re_d s =
     two_chars (\<lambda>a. a = CHR ''3'') (\<lambda>b. digit_in b 0 1) (\<lambda>a b. 30 + dv b) s
     @ two_chars (\<lambda>a. digit_in a 1 2) is_digit (\<lambda>a b. 10 * dv a + dv b) s
     @ two_chars (\<lambda>a. a = CHR ''0'') (\<lambda>b. digit_in b 1 9) (\<lambda>a b. dv b) s
     @ one_char (\<lambda>a. digit_in a 1 9) s
     @ two_chars (\<lambda>a. a = CHR '' '') (\<lambda>b. digit_in b 1 9) (\<lambda>a b. dv b) s"

definition re_Y :: "string \<Rightarrow> (int \<times> string) list" where
  "re_Y s =
     (case s of a # b # c # d # r \<Rightarrow>
        (if is_digit a \<and> is_digit b \<and> is_digit c \<and> is_digit d
         then [(1000 * dv a + 100 * dv b + 10 * dv c + dv d, r)] else [])
      | _ \<Rightarrow> [])"

definition slash :: "string \<Rightarrow> string list" where
  "slash s = (case s of a # r \<Rightarrow> (if a = CHR ''/'' then [r] else []) | _ \<Rightarrow> [])"

definition re_match :: "string \<Rightarrow> (int \<times> int \<times> int \<times> string) list" where
  "re_match s =
     concat (map (\<lambda>(m, r1).
       concat (map (\<lambda>r2.
         concat (map (\<lambda>(d, r3).
           concat (map (\<lambda>r4.
             map (\<lambda>(y, r5). (m, d, y, r5)) (re_Y r4))
           (slash r3)))
         (re_d r2)))
       (slash r1)))
     (re_m s))"

definition strptime :: "string \<Rightarrow> error + datetime" where
  "strptime s =
     (case re_match s of
        [] \<Rightarrow> Inl ValueError
      | (m, d, y, r) # _ \<Rightarrow> if r \<noteq> [] then Inl ValueError else datetime_new y m d)"

section \<open>The date parser\<close>

text \<open>
  \<^verbatim>\<open>parse_due_date(due_string)\<close>, with the reading of the clock
  (\<^verbatim>\<open>datetime.now()\<close>) as the parameter \<open>now\<close>. Only the \<^verbatim>\<open>ValueError\<close> of
  \<^verbatim>\<open>strptime\<close> is caught; an error of the date arithmetic reaches the caller.
\<close>

definition weekdays :: "string list" where
  "weekdays = [''monday'', ''tuesday'', ''wednesday'', ''thursday'', ''friday'',
               ''saturday'', ''sunday'']"

text \<open>
  \<^verbatim>\<open>xs.index(x)\<close>: the first position of \<open>x\<close>; \<^verbatim>\<open>ValueError\<close>, here \<open>None\<close>, when
  \<open>x\<close> is not in the list.
\<close>

fun index :: "'a list \<Rightarrow> 'a \<Rightarrow> int option" where
  "index [] x = None"
| "index (y # ys) x = (if y = x then Some 0 else map_option (\<lambda>i. i + 1) (index ys x))"

definition parse_due_date :: "datetime \<Rightarrow> string \<Rightarrow> error + datetime option" where
  "parse_due_date now due_string =
     (if due_string = [] then Inr None
      else case strptime due_string of
        Inr d \<Rightarrow> Inr (Some d)
      | Inl OverflowError \<Rightarrow> Inl OverflowError
      | Inl ValueError \<Rightarrow>
          (let due_string' = lower (strip due_string); today = now
           in if due_string' = ''tomorrow'' then map_sum id Some (add_days today 1)
              else if due_string' \<in> set weekdays then
                (case index weekdays due_string' of
                   None \<Rightarrow> Inl ValueError
                 | Some target_index \<Rightarrow>
                     (let today_index = weekday today;
                          r = (target_index - today_index + 7) mod 7;
                          delta_days = (if r = 0 then 7 else r)
                      in map_sum id Some (add_days today delta_days)))
              else Inr None))"

section \<open>Tasks and the task store\<close>

text \<open>
  A \<^verbatim>\<open>Task\<close>. The field \<^verbatim>\<open>id\<close> is \<open>id_task\<close> here. \<^verbatim>\<open>Task(name, priority, due_date)\<close>
  takes the fresh \<^verbatim>\<open>uuid4().int\<close> and the clock as parameters.
\<close>

record Task =
  name :: string
  priority :: int
  id_task :: int
  created :: datetime
  due_date :: "datetime option"
  completed :: "datetime option"

definition Task_init :: "int \<Rightarrow> datetime \<Rightarrow> string \<Rightarrow> int \<Rightarrow> datetime option \<Rightarrow> Task" where
  "Task_init uuid now nm prio due =
     \<lparr>name = nm, priority = prio, id_task = uuid, created = now,
      due_date = due, completed = None\<rparr>"

definition mark_completed :: "datetime \<Rightarrow> Task \<Rightarrow> Task" where
  "mark_completed now t = t\<lparr>completed := Some now\<rparr>"

definition is_done :: "Task \<Rightarrow> bool" where
  "is_done t = (completed t \<noteq> None)"

text \<open>
  The store: the list \<^verbatim>\<open>self.tasks\<close> and the pickle file, \<open>None\<close> when the file
  does not exist. \<^verbatim>\<open>pickle.dump\<close> and \<^verbatim>\<open>pickle.load\<close> write and read the list of
  tasks as it is.
\<close>

record Tasks =
  tasks :: "Task list"
  pickle_file :: "Task list option"

definition Tasks_init :: "Task list option \<Rightarrow> Tasks" where
  "Tasks_init file =
     \<lparr>tasks = sort_key (\<lambda>t. dt_key (created t)) (case file of None \<Rightarrow> [] | Some ts \<Rightarrow> ts),
      pickle_file = file\<rparr>"

definition pickle_tasks :: "Tasks \<Rightarrow> Tasks" where
  "pickle_tasks self = self\<lparr>pickle_file := Some (tasks self)\<rparr>"

text \<open>
  What \<^verbatim>\<open>add\<close>, \<^verbatim>\<open>done\<close> and \<^verbatim>\<open>delete\<close> print. The tables of \<^verbatim>\<open>list\<close>,
  \<^verbatim>\<open>report\<close> and \<^verbatim>\<open>query\<close> are the tasks of their rows, in the order of the rows.
  (\<^verbatim>\<open>Tasks.done\<close> is \<open>done_task\<close> and \<^verbatim>\<open>Tasks.list\<close> is \<open>list_tasks\<close> here.)
\<close>

datatype printed = Created int | Completed int | Deleted int | Not_found

text \<open>
  \<^verbatim>\<open>list.sort\<close> and \<^verbatim>\<open>sorted\<close> are stable, as \<open>sort_key\<close> is. The key of the three
  listings is \<^verbatim>\<open>(t.due_date or datetime.max, -t.priority)\<close>; a datetime is never
  false, so only \<^verbatim>\<open>None\<close> takes the second operand.
\<close>

definition due_or_max :: "Task \<Rightarrow> datetime" where
  "due_or_max t = (case due_date t of None \<Rightarrow> datetime_max | Some d \<Rightarrow> d)"

definition list_key :: "Task \<Rightarrow> (int \<times> nat) \<times> int" where
  "list_key t = (dt_key (due_or_max t), - priority t)"

text \<open>
  \<^verbatim>\<open>add\<close> reads the clock twice, in the date parser (\<open>now\<close>) and in the constructor
  of the task (\<open>now'\<close>), and takes the fresh id as \<open>uuid\<close>. An error of the date
  parser leaves the method before the task is made.
\<close>

definition add :: "datetime \<Rightarrow> int \<Rightarrow> datetime \<Rightarrow> string \<Rightarrow> string option \<Rightarrow> int \<Rightarrow> Tasks
    \<Rightarrow> (error + printed) \<times> Tasks" where
  "add now uuid now' nm due prio self =
     (case (case due of None \<Rightarrow> Inr None
            | Some s \<Rightarrow> if s = [] then Inr None else parse_due_date now s) of
        Inl e \<Rightarrow> (Inl e, self)
      | Inr due_date' \<Rightarrow>
          (let task = Task_init uuid now' nm prio due_date';
               self' = pickle_tasks (self\<lparr>tasks := tasks self @ [task]\<rparr>)
           in (Inr (Created (id_task task)), self')))"

definition list_tasks :: "Tasks \<Rightarrow> Task list" where
  "list_tasks self = sort_key list_key (filter (\<lambda>t. \<not> is_done t) (tasks self))"

definition report :: "Tasks \<Rightarrow> Task list" where
  "report self = sort_key list_key (tasks self)"

fun find_first :: "('a \<Rightarrow> bool) \<Rightarrow> 'a list \<Rightarrow> nat option" where
  "find_first p [] = None"
| "find_first p (x # xs) = (if p x then Some 0 else map_option Suc (find_first p xs))"

definition done_task :: "datetime \<Rightarrow> string \<Rightarrow> Tasks \<Rightarrow> (error + printed) \<times> Tasks" where
  "done_task now task_id self =
     (case py_int task_id of
        None \<Rightarrow> (Inl ValueError, self)
      | Some i \<Rightarrow>
          (case find_first (\<lambda>t. id_task t = i) (tasks self) of
             Some k \<Rightarrow>
               (let task = mark_completed now (tasks self ! k);
                    self' = pickle_tasks (self\<lparr>tasks := (tasks self)[k := task]\<rparr>)
                in (Inr (Completed (id_task task)), self'))
           | None \<Rightarrow> (Inr Not_found, self)))"

definition delete :: "string \<Rightarrow> Tasks \<Rightarrow> (error + printed) \<times> Tasks" where
  "delete task_id self =
     (case py_int task_id of
        None \<Rightarrow> (Inl ValueError, self)
      | Some i \<Rightarrow>
          (let original_len = length (tasks self);
               self' = self\<lparr>tasks := filter (\<lambda>t. \<not> id_task t = i) (tasks self)\<rparr>
           in if length (tasks self') < original_len
              then (Inr (Deleted i), pickle_tasks self')
              else (Inr Not_found, self')))"

definition query :: "string list \<Rightarrow> Tasks \<Rightarrow> Task list" where
  "query terms self =
     sort_key list_key
       (filter (\<lambda>t. \<not> is_done t \<and> list_ex (\<lambda>trm. sublist (lower trm) (lower (name t))) terms)
          (tasks self))"

section \<open>Properties stated by the specification\<close>

text \<open>
  The listing order in the words of the specification, for a selection \<open>sel\<close> in the
  order of the collection and the rows \<open>out\<close> of the table: the same tasks; of two
  rows the earlier one has the earlier due date, no due date counting as
  \<^verbatim>\<open>datetime.max\<close>, or the same due date and a priority at least as high; a task
  without due date comes after every task due before \<^verbatim>\<open>datetime.max\<close>; tasks of
  the same due date and priority keep the order they have in the selection.
\<close>

definition spec_listing_order :: "Task list \<Rightarrow> Task list \<Rightarrow> bool" where
  "spec_listing_order sel out =
     (mset out = mset sel
      \<and> (\<forall>i j. i < j \<and> j < length out \<longrightarrow>
            dt_key (due_or_max (out ! i)) < dt_key (due_or_max (out ! j))
            \<or> (dt_key (due_or_max (out ! i)) = dt_key (due_or_max (out ! j))
               \<and> priority (out ! j) \<le> priority (out ! i)))
      \<and> (\<forall>i j. i < length out \<and> j < length out \<and> due_date (out ! i) = None
            \<and> (\<exists>d. due_date (out ! j) = Some d \<and> dt_key d < dt_key datetime_max)
            \<longrightarrow> j < i)
      \<and> (\<forall>dd p. filter (\<lambda>t. due_date t = dd \<and> priority t = p) out
                 = filter (\<lambda>t. due_date t = dd \<and> priority t = p) sel))"

text \<open>Example data: three tasks as in the specification's sorting example, and a clock.\<close>

definition ex_now :: datetime where
  "ex_now = \<lparr>toordinal = 739261, time_us = 43200000000\<rparr>"

definition ex_t1 :: Task where
  "ex_t1 = \<lparr>name = ''Call the bank'', priority = 1, id_task = 101,
            created = \<lparr>toordinal = 739250, time_us = 1000000\<rparr>,
            due_date = None, completed = None\<rparr>"

definition ex_t2 :: Task where
  "ex_t2 = \<lparr>name = ''Buy groceries'', priority = 2, id_task = 102,
            created = \<lparr>toordinal = 739250, time_us = 2000000\<rparr>,
            due_date = Some \<lparr>toordinal = 739261, time_us = 0\<rparr>, completed = None\<rparr>"

definition ex_t3 :: Task where
  "ex_t3 = \<lparr>name = ''File taxes'', priority = 3, id_task = 103,
            created = \<lparr>toordinal = 739251, time_us = 0\<rparr>,
            due_date = Some \<lparr>toordinal = 739261, time_us = 0\<rparr>, completed = None\<rparr>"

definition ex_store :: Tasks where
  "ex_store = Tasks_init (Some [ex_t1, ex_t2, ex_t3])"

text \<open>
  The text of a date in the form MM/DD/YYYY: two digits, two digits and four digits, as
  \<^verbatim>\<open>strftime("%m/%d/%Y")\<close> writes them in the listings.
\<close>

definition digit_char :: "int \<Rightarrow> char" where
  "digit_char k = char_of (48 + nat k)"

definition fmt2 :: "int \<Rightarrow> string" where
  "fmt2 n = [digit_char (n div 10), digit_char (n mod 10)]"

definition fmt4 :: "int \<Rightarrow> string" where
  "fmt4 n = [digit_char (n div 1000), digit_char (n div 100 mod 10),
             digit_char (n div 10 mod 10), digit_char (n mod 10)]"

definition mdY :: "int \<Rightarrow> int \<Rightarrow> int \<Rightarrow> string" where
  "mdY m d y = fmt2 m @ ''/'' @ fmt2 d @ ''/'' @ fmt4 y"

section \<open>The listing order\<close>

lemma sorted_list_key_pairs:
  assumes "sorted (map list_key out)" "i < j" "j < length out"
  shows "dt_key (due_or_max (out ! i)) < dt_key (due_or_max (out ! j))
         \<or> (dt_key (due_or_max (out ! i)) = dt_key (due_or_max (out ! j))
            \<and> priority (out ! j) \<le> priority (out ! i))"
proof -
  have "map list_key out ! i \<le> map list_key out ! j"
    using assms by (intro sorted_nth_mono) auto
  then have "list_key (out ! i) \<le> list_key (out ! j)"
    using assms by simp
  then show ?thesis
    by (auto simp: list_key_def)
qed

lemma sorted_list_key_undated:
  assumes "sorted (map list_key out)" "i < length out" "j < length out"
    and "due_date (out ! i) = None"
    and "due_date (out ! j) = Some d" "dt_key d < dt_key datetime_max"
  shows "j < i"
proof (rule ccontr)
  assume "\<not> j < i"
  moreover have "i \<noteq> j" using assms by auto
  ultimately have "i < j" by simp
  from sorted_list_key_pairs[OF assms(1) this assms(3)]
  show False using assms(4,5,6) by (auto simp: due_or_max_def)
qed

lemma stable_list_key:
  "filter (\<lambda>t. due_date t = dd \<and> priority t = p) (sort_key list_key sel)
   = filter (\<lambda>t. due_date t = dd \<and> priority t = p) sel"
proof -
  let ?k = "(dt_key (case dd of None \<Rightarrow> datetime_max | Some d \<Rightarrow> d), - p)"
  let ?Q = "\<lambda>t. due_date t = dd \<and> priority t = p"
  have f: "filter ?Q xs = filter ?Q (filter (\<lambda>t. list_key t = ?k) xs)" for xs
    by (induction xs) (auto simp: list_key_def due_or_max_def)
  have "filter ?Q (sort_key list_key sel)
        = filter ?Q (filter (\<lambda>t. list_key t = ?k) (sort_key list_key sel))"
    by (rule f)
  also have "\<dots> = filter ?Q (filter (\<lambda>t. list_key t = ?k) sel)"
    by (simp only: sort_key_stable)
  also have "\<dots> = filter ?Q sel"
    by (rule f[symmetric])
  finally show ?thesis .
qed

lemma sort_key_listing_order: "spec_listing_order sel (sort_key list_key sel)"
proof -
  let ?out = "sort_key list_key sel"
  have s: "sorted (map list_key ?out)" by (rule sorted_sort_key)
  have a: "mset ?out = mset sel" by simp
  have b: "\<forall>i j. i < j \<and> j < length ?out \<longrightarrow>
            dt_key (due_or_max (?out ! i)) < dt_key (due_or_max (?out ! j))
            \<or> (dt_key (due_or_max (?out ! i)) = dt_key (due_or_max (?out ! j))
               \<and> priority (?out ! j) \<le> priority (?out ! i))"
    using sorted_list_key_pairs[OF s] by blast
  have c: "\<forall>i j. i < length ?out \<and> j < length ?out \<and> due_date (?out ! i) = None
            \<and> (\<exists>d. due_date (?out ! j) = Some d \<and> dt_key d < dt_key datetime_max)
            \<longrightarrow> j < i"
    using sorted_list_key_undated[OF s] by blast
  have d: "\<forall>dd p. filter (\<lambda>t. due_date t = dd \<and> priority t = p) ?out
                 = filter (\<lambda>t. due_date t = dd \<and> priority t = p) sel"
    using stable_list_key by blast
  show ?thesis
    unfolding spec_listing_order_def using a b c d by blast
qed

lemma ex_store_tasks: "tasks ex_store = [ex_t1, ex_t2, ex_t3]"
  by (simp add: ex_store_def Tasks_init_def ex_t1_def ex_t2_def ex_t3_def dt_key_def)

lemma ex_store_list: "list_tasks ex_store = [ex_t3, ex_t2, ex_t1]"
  by (simp add: list_tasks_def ex_store_tasks is_done_def list_key_def due_or_max_def dt_key_def
        datetime_max_def MAXORDINAL_def US_PER_DAY_def ex_t1_def ex_t2_def ex_t3_def)

section \<open>The date parser: relative dates\<close>

lemma index_Some:
  "x \<in> set xs \<Longrightarrow> \<exists>k. index xs x = Some k \<and> 0 \<le> k \<and> k < int (length xs) \<and> xs ! nat k = x"
proof (induction xs)
  case Nil
  then show ?case by simp
next
  case (Cons y ys)
  show ?case
  proof (cases "y = x")
    case True
    then show ?thesis by simp
  next
    case False
    then obtain k where k: "index ys x = Some k" "0 \<le> k" "k < int (length ys)" "ys ! nat k = x"
      using Cons by auto
    have "nat (k + 1) = Suc (nat k)" using k(2) by simp
    then show ?thesis using False k by simp
  qed
qed

lemma strptime_error: "strptime s = Inl e \<Longrightarrow> e = ValueError"
  unfolding strptime_def datetime_new_def
  by (cases "re_match s") (auto split: if_splits)

lemma two_chars_Nil: "\<not> p c \<Longrightarrow> two_chars p q v (c # r) = []"
  by (cases r) (simp_all add: two_chars_def)

lemma one_char_Nil: "\<not> p c \<Longrightarrow> one_char p (c # r) = []"
  by (simp add: one_char_def)

lemma digit_1: "is_digit (CHR ''1'')" by code_simp
lemma digit_0: "is_digit (CHR ''0'')" by code_simp

lemma digit_in_is_digit: "digit_in c lo hi \<Longrightarrow> is_digit c"
  by (cases "digit_val c") (simp_all add: digit_in_def is_digit_def)

lemma re_m_hd_digit:
  assumes "re_m s \<noteq> []" shows "\<exists>c r. s = c # r \<and> is_digit c"
proof (cases s)
  case Nil
  then show ?thesis using assms by (simp add: re_m_def two_chars_def one_char_def)
next
  case (Cons c r)
  have "is_digit c"
  proof (rule ccontr)
    assume n: "\<not> is_digit c"
    then have "c \<noteq> CHR ''1''" "c \<noteq> CHR ''0''" "\<not> digit_in c 1 9"
      using digit_1 digit_0 digit_in_is_digit by auto
    then have "re_m (c # r) = []"
      by (simp add: re_m_def two_chars_Nil one_char_Nil)
    then show False using assms Cons by simp
  qed
  then show ?thesis using Cons by simp
qed

lemma re_match_hd_digit:
  assumes "re_match s \<noteq> []" shows "\<exists>c r. s = c # r \<and> is_digit c"
proof -
  have "re_m s \<noteq> []"
  proof
    assume "re_m s = []"
    then have "re_match s = []" by (simp add: re_match_def)
    then show False using assms by simp
  qed
  then show ?thesis by (rule re_m_hd_digit)
qed

lemma strptime_hd_digit:
  assumes "strptime s = Inr d" shows "\<exists>c r. s = c # r \<and> is_digit c"
proof -
  have "re_match s \<noteq> []"
  proof
    assume "re_match s = []"
    then have "strptime s = Inl ValueError" by (simp add: strptime_def)
    then show False using assms by simp
  qed
  then show ?thesis by (rule re_match_hd_digit)
qed

lemma datetime_new_midnight: "datetime_new y m d = Inr x \<Longrightarrow> time_us x = 0"
  by (auto simp: datetime_new_def split: if_splits)

lemma strptime_midnight:
  assumes "strptime s = Inr d" shows "time_us d = 0"
proof (cases "re_match s")
  case Nil
  then show ?thesis using assms by (simp add: strptime_def)
next
  case (Cons a as)
  obtain m d' y r where a: "a = (m, d', y, r)" by (cases a) auto
  have "datetime_new y m d' = Inr d"
    using assms Cons a by (simp add: strptime_def split: if_splits)
  then show ?thesis by (rule datetime_new_midnight)
qed

lemma digit_not_space: "is_digit c \<Longrightarrow> \<not> isspace c"
  by (auto simp: is_digit_def digit_val_def isspace_def Let_def split: if_splits)

lemma digit_lower: "is_digit c \<Longrightarrow> lower_char c = c"
  by (auto simp: is_digit_def digit_val_def lower_char_def Let_def split: if_splits)

lemma strip_Cons: "\<not> isspace c \<Longrightarrow> \<exists>r'. strip (c # r) = c # r'"
proof -
  assume c: "\<not> isspace c"
  have "dropWhile isspace (rev r @ [c]) = dropWhile isspace (rev r) @ [c]"
    using c by (simp add: dropWhile_append3)
  then show ?thesis using c by (simp add: strip_def)
qed

lemma lower_strip_digit:
  assumes "is_digit c" shows "\<exists>r'. lower (strip (c # r)) = c # r'"
proof -
  obtain r' where "strip (c # r) = c # r'"
    using strip_Cons[OF digit_not_space[OF assms]] by blast
  then show ?thesis using digit_lower[OF assms] by (simp add: lower_def)
qed

lemma letters_not_digit:
  "\<not> is_digit (CHR ''m'')" "\<not> is_digit (CHR ''t'')" "\<not> is_digit (CHR ''w'')"
  "\<not> is_digit (CHR ''f'')" "\<not> is_digit (CHR ''s'')"
  by (simp_all add: is_digit_def digit_val_def)

lemma weekdays_all:
  "list_all (\<lambda>x. case x of [] \<Rightarrow> False | c # r \<Rightarrow> \<not> is_digit c) weekdays"
  by code_simp

lemma weekday_names_hd:
  assumes "x \<in> set weekdays" shows "\<exists>c r. x = c # r \<and> \<not> is_digit c"
proof -
  have "case x of [] \<Rightarrow> False | c # r \<Rightarrow> \<not> is_digit c"
    using weekdays_all assms unfolding list_all_iff by blast
  then show ?thesis by (cases x) simp_all
qed

lemma weekdays_not_tomorrow: "''tomorrow'' \<notin> set weekdays"
  by code_simp

lemma relative_not_strptime:
  assumes "lower (strip s) = ''tomorrow'' \<or> lower (strip s) \<in> set weekdays"
  shows "strptime s = Inl ValueError \<and> s \<noteq> []"
proof -
  have "\<exists>c r. lower (strip s) = c # r \<and> \<not> is_digit c"
    using assms
  proof
    assume "lower (strip s) = ''tomorrow''"
    then show ?thesis using letters_not_digit(2) by blast
  next
    assume "lower (strip s) \<in> set weekdays"
    then show ?thesis by (rule weekday_names_hd)
  qed
  then obtain c r where x: "lower (strip s) = c # r" "\<not> is_digit c" by blast
  have ne: "s \<noteq> []" using x by (auto simp: strip_def lower_def)
  have "strptime s = Inl ValueError"
  proof (cases "strptime s")
    case (Inl e) then show ?thesis using strptime_error by blast
  next
    case (Inr d)
    then obtain c' r' where s: "s = c' # r'" "is_digit c'" using strptime_hd_digit by blast
    obtain r'' where "lower (strip (c' # r')) = c' # r''"
      using lower_strip_digit[OF s(2)] by blast
    then have "c = c'" using x s by simp
    then show ?thesis using x s by simp
  qed
  then show ?thesis using ne by simp
qed

lemma length_weekdays: "int (length weekdays) = 7"
  by (simp add: weekdays_def)

lemma delta_range:
  fixes r :: int
  assumes "r = x mod 7"
  shows "1 \<le> (if r = 0 then 7 else r) \<and> (if r = 0 then 7 else r) \<le> 7"
proof -
  have "0 \<le> r" "r < 7" using assms by simp_all
  then show ?thesis by auto
qed

lemma delta_weekday:
  fixes t w n r :: int
  assumes t: "0 \<le> t" "t < 7" and w: "w = (n + 6) mod 7" and r: "r = (t - w + 7) mod 7"
  shows "(n + (if r = 0 then 7 else r) + 6) mod 7 = t"
proof -
  define a where "a = n + 6"
  define q where "q = a div 7"
  have split: "a = 7 * q + w" using w a_def q_def by simp
  have "(a + 7) mod 7 = a mod 7" by presburger
  then have "(a + (if r = 0 then 7 else r)) mod 7 = (a + r) mod 7"
    by simp
  also have "\<dots> = (a + (t - w + 7)) mod 7"
    unfolding r by (rule mod_add_right_eq)
  also have "a + (t - w + 7) = t + 7 * (q + 1)"
    using split by (simp add: algebra_simps)
  also have "(t + 7 * (q + 1)) mod 7 = t mod 7"
    by (rule mod_mult_self2)
  also have "\<dots> = t" using t by simp
  finally have "(a + (if r = 0 then 7 else r)) mod 7 = t" .
  moreover have "n + (if r = 0 then 7 else r) + 6 = a + (if r = 0 then 7 else r)"
    unfolding a_def by simp
  ultimately show ?thesis by (simp only:)
qed

lemma delta_same:
  fixes t w r :: int
  assumes "r = (t - w + 7) mod 7" "w = t"
  shows "(if r = 0 then 7 else r) = 7"
  using assms by simp

lemma add_days_ok:
  assumes "valid_datetime now" "toordinal now + 7 \<le> MAXORDINAL" "1 \<le> k" "k \<le> 7"
  shows "add_days now k = Inr (now\<lparr>toordinal := toordinal now + k\<rparr>)"
  using assms unfolding add_days_def valid_datetime_def Let_def by simp

lemma parse_relative_weekday:
  assumes w: "lower (strip s) \<in> set weekdays"
    and i: "index weekdays (lower (strip s)) = Some t"
  shows "parse_due_date now s =
           map_sum id Some (add_days now
             (if (t - weekday now + 7) mod 7 = 0 then 7 else (t - weekday now + 7) mod 7))"
proof -
  have st: "strptime s = Inl ValueError" "s \<noteq> []"
    using relative_not_strptime w by blast+
  have nt: "lower (strip s) \<noteq> ''tomorrow''"
    using w weekdays_not_tomorrow by auto
  show ?thesis
    unfolding parse_due_date_def Let_def
    by (simp only: st nt w i if_False if_True sum.case error.case option.case)
qed

lemma parse_relative_tomorrow:
  assumes w: "lower (strip s) = ''tomorrow''"
  shows "parse_due_date now s = map_sum id Some (add_days now 1)"
proof -
  have st: "strptime s = Inl ValueError" "s \<noteq> []"
    using relative_not_strptime w by blast+
  show ?thesis
    unfolding parse_due_date_def Let_def
    by (simp only: st w if_False if_True sum.case error.case refl)
qed

text \<open>
  C2. A weekday name, in any case and with surrounding whitespace, is parsed to a date
  one to seven days after today, never today, whose weekday is the one named, at the
  time of day of the clock; when today is that weekday, the date is seven days later.
  The clock is at least seven days before the last day of \<^verbatim>\<open>datetime\<close>, so that
  the sum is in range.
\<close>

theorem weekday_next_occurrence:
  assumes w: "lower (strip s) \<in> set weekdays"
    and v: "valid_datetime now" and c: "toordinal now + 7 \<le> MAXORDINAL"
  shows "\<exists>d. parse_due_date now s = Inr (Some d)
          \<and> 1 \<le> toordinal d - toordinal now \<and> toordinal d - toordinal now \<le> 7
          \<and> toordinal d \<noteq> toordinal now
          \<and> index weekdays (lower (strip s)) = Some (weekday d)
          \<and> weekdays ! nat (weekday d) = lower (strip s)
          \<and> time_us d = time_us now
          \<and> (index weekdays (lower (strip s)) = Some (weekday now)
               \<longrightarrow> toordinal d = toordinal now + 7)"
proof -
  obtain t where t: "index weekdays (lower (strip s)) = Some t" "0 \<le> t" "t < 7"
    "weekdays ! nat t = lower (strip s)"
    using index_Some[OF w] length_weekdays by auto
  define r where "r = (t - weekday now + 7) mod 7"
  define delta where "delta = (if r = 0 then 7 else r)"
  define d where "d = now\<lparr>toordinal := toordinal now + delta\<rparr>"
  have db: "1 \<le> delta" "delta \<le> 7"
    using delta_range[OF r_def] unfolding delta_def by simp_all
  have "parse_due_date now s = map_sum id Some (add_days now delta)"
    using parse_relative_weekday[OF w t(1), of now] unfolding delta_def r_def by simp
  then have p: "parse_due_date now s = Inr (Some d)"
    using add_days_ok[OF v c db] unfolding d_def by simp
  have wd: "weekday d = t"
    using delta_weekday[OF t(2,3) _ r_def, of "toordinal now"]
    unfolding d_def delta_def weekday_def by simp
  have same: "weekday now = t \<longrightarrow> delta = 7"
    using delta_same[OF r_def] unfolding delta_def by simp
  have ord: "toordinal d = toordinal now + delta" "time_us d = time_us now"
    unfolding d_def by simp_all
  show ?thesis
    using p db wd same ord t by auto
qed

theorem weekday_next_occurrence_witness:
  "lower (strip ''  FriDay '') \<in> set weekdays \<and> valid_datetime ex_now
   \<and> toordinal ex_now + 7 \<le> MAXORDINAL
   \<and> index weekdays (lower (strip ''  FriDay '')) = Some (weekday ex_now)
   \<and> (\<exists>d. parse_due_date ex_now ''  FriDay '' = Inr (Some d)
          \<and> toordinal d = toordinal ex_now + 7
          \<and> weekday d = 4 \<and> time_us d = time_us ex_now)"
proof -
  have n: "lower (strip ''  FriDay '') = ''friday''" by code_simp
  have i: "index weekdays ''friday'' = Some 4" by (simp add: weekdays_def)
  have w: "lower (strip ''  FriDay '') \<in> set weekdays"
    unfolding n by (simp add: weekdays_def)
  have v: "valid_datetime ex_now"
    by (simp add: valid_datetime_def ex_now_def MAXORDINAL_def US_PER_DAY_def)
  have c: "toordinal ex_now + 7 \<le> MAXORDINAL"
    by (simp add: ex_now_def MAXORDINAL_def)
  have t: "index weekdays (lower (strip ''  FriDay '')) = Some (weekday ex_now)"
    unfolding n i by (simp add: weekday_def ex_now_def)
  show ?thesis
    using weekday_next_occurrence[OF w v c] w v c t n i by auto
qed

section \<open>The date parser: every input\<close>

lemma parse_empty: "parse_due_date now [] = Inr None"
  by (simp add: parse_due_date_def)

lemma parse_strptime_ok:
  assumes "strptime s = Inr d" shows "parse_due_date now s = Inr (Some d)"
proof -
  have "s \<noteq> []" using strptime_hd_digit[OF assms] by auto
  then show ?thesis using assms by (simp add: parse_due_date_def)
qed

lemma parse_unrecognised:
  assumes "\<forall>d. strptime s \<noteq> Inr d" "lower (strip s) \<noteq> ''tomorrow''"
    "lower (strip s) \<notin> set weekdays"
  shows "parse_due_date now s = Inr None"
proof -
  have "strptime s = Inl ValueError"
    using assms(1) strptime_error by (cases "strptime s") auto
  then show ?thesis
    unfolding parse_due_date_def Let_def
    by (simp only: assms(2,3) if_False if_True sum.case error.case if_cancel)
qed

lemma parse_tomorrow_result:
  assumes w: "lower (strip s) = ''tomorrow''"
    and v: "valid_datetime now" and c: "toordinal now + 7 \<le> MAXORDINAL"
  shows "parse_due_date now s = Inr (Some (now\<lparr>toordinal := toordinal now + 1\<rparr>))"
  using parse_relative_tomorrow[OF w, of now] add_days_ok[OF v c, of 1] by simp

lemma parse_weekday_result:
  assumes w: "lower (strip s) \<in> set weekdays"
    and v: "valid_datetime now" and c: "toordinal now + 7 \<le> MAXORDINAL"
  shows "\<exists>k. 1 \<le> k \<and> k \<le> 7
           \<and> parse_due_date now s = Inr (Some (now\<lparr>toordinal := toordinal now + k\<rparr>))"
proof -
  obtain t where t: "index weekdays (lower (strip s)) = Some t"
    using index_Some[OF w] by blast
  define r where "r = (t - weekday now + 7) mod 7"
  define delta where "delta = (if r = 0 then 7 else r)"
  have db: "1 \<le> delta" "delta \<le> 7"
    using delta_range[OF r_def] unfolding delta_def by simp_all
  have "parse_due_date now s = map_sum id Some (add_days now delta)"
    using parse_relative_weekday[OF w t, of now] unfolding delta_def r_def by simp
  then have "parse_due_date now s = Inr (Some (now\<lparr>toordinal := toordinal now + delta\<rparr>))"
    using add_days_ok[OF v c db] by simp
  then show ?thesis using db by blast
qed

lemma parse_no_error:
  assumes v: "valid_datetime now" and c: "toordinal now + 7 \<le> MAXORDINAL"
  shows "\<exists>r. parse_due_date now s = Inr r"
proof (cases "\<exists>d. strptime s = Inr d")
  case True
  then show ?thesis using parse_strptime_ok by blast
next
  case False
  then have n: "\<forall>d. strptime s \<noteq> Inr d" by simp
  show ?thesis
  proof (cases "lower (strip s) = ''tomorrow''")
    case True
    then show ?thesis using parse_tomorrow_result[OF _ v c] by blast
  next
    case nt: False
    show ?thesis
    proof (cases "lower (strip s) \<in> set weekdays")
      case True
      then show ?thesis using parse_weekday_result[OF _ v c] by blast
    next
      case False
      then show ?thesis using parse_unrecognised[OF n nt] by blast
    qed
  qed
qed

text \<open>
  C6. The date parser returns for every string, without an error: the empty string,
  and any text that is neither a date in the form month/day/year, nor the word
  tomorrow, nor a weekday name, gives no due date. (For tomorrow and the weekday
  names the clock is at least seven days before the last day of \<^verbatim>\<open>datetime\<close>.)
\<close>

theorem parse_due_date_total:
  "(valid_datetime now \<and> toordinal now + 7 \<le> MAXORDINAL
      \<longrightarrow> (\<exists>r. parse_due_date now s = Inr r))
   \<and> (s = [] \<or> ((\<forall>d. strptime s \<noteq> Inr d) \<and> lower (strip s) \<noteq> ''tomorrow''
                 \<and> lower (strip s) \<notin> set weekdays)
      \<longrightarrow> parse_due_date now s = Inr None)"
  using parse_no_error[of now s] parse_unrecognised[of s now] parse_empty[of now] by blast

lemma ex_now_valid: "valid_datetime ex_now \<and> toordinal ex_now + 7 \<le> MAXORDINAL"
  by (simp add: valid_datetime_def ex_now_def MAXORDINAL_def US_PER_DAY_def)

theorem parse_due_date_total_witness:
  "valid_datetime ex_now \<and> toordinal ex_now + 7 \<le> MAXORDINAL
   \<and> (\<forall>d. strptime ''next week'' \<noteq> Inr d) \<and> lower (strip ''next week'') \<noteq> ''tomorrow''
   \<and> lower (strip ''next week'') \<notin> set weekdays
   \<and> (\<exists>r. parse_due_date ex_now ''next week'' = Inr r)
   \<and> parse_due_date ex_now ''next week'' = Inr None"
proof -
  have a: "strptime ''next week'' = Inl ValueError" by code_simp
  have b: "lower (strip ''next week'') = ''next week''" by code_simp
  have c: "''next week'' \<noteq> ''tomorrow''" "''next week'' \<notin> set weekdays"
    by (simp_all add: weekdays_def)
  show ?thesis
    using parse_due_date_total[of ex_now "''next week''"] ex_now_valid a b c by simp
qed

section \<open>The time of day of a due date\<close>

lemma ex_parse_tomorrow:
  "parse_due_date ex_now ''tomorrow'' = Inr (Some \<lparr>toordinal = 739262, time_us = 43200000000\<rparr>)"
proof -
  have "lower (strip ''tomorrow'') = ''tomorrow''" by code_simp
  from parse_tomorrow_result[OF this, of ex_now] ex_now_valid
  show ?thesis by (simp add: ex_now_def)
qed

lemma ex_parse_date:
  "parse_due_date ex_now ''01/11/2025'' = Inr (Some \<lparr>toordinal = 739262, time_us = 0\<rparr>)"
proof -
  have "strptime ''01/11/2025'' = Inr \<lparr>toordinal = 739262, time_us = 0\<rparr>" by code_simp
  then show ?thesis by (rule parse_strptime_ok)
qed

text \<open>
  C10. The time of day of a parsed due date depends on the form of the input: a date in
  the form month/day/year is at midnight, tomorrow and the weekday names carry the
  time of day of the clock (at least seven days before the last day of
  \<^verbatim>\<open>datetime\<close>). So two due dates on the same day, parsed from different forms, can
  have different keys in the listing order.
\<close>

theorem due_date_time_of_day:
  "(\<forall>d. strptime s = Inr d \<longrightarrow> parse_due_date now s = Inr (Some d) \<and> time_us d = 0)
   \<and> ((lower (strip s') = ''tomorrow'' \<or> lower (strip s') \<in> set weekdays)
        \<and> valid_datetime now \<and> toordinal now + 7 \<le> MAXORDINAL
      \<longrightarrow> (\<exists>d. parse_due_date now s' = Inr (Some d) \<and> time_us d = time_us now))
   \<and> (\<exists>now0 s1 s2 d1 d2.
         parse_due_date now0 s1 = Inr (Some d1) \<and> parse_due_date now0 s2 = Inr (Some d2)
         \<and> toordinal d1 = toordinal d2
         \<and> dt_key (due_or_max (t\<lparr>due_date := Some d1\<rparr>))
             \<noteq> dt_key (due_or_max (t\<lparr>due_date := Some d2\<rparr>)))"
proof -
  have a: "\<forall>d. strptime s = Inr d \<longrightarrow> parse_due_date now s = Inr (Some d) \<and> time_us d = 0"
    using parse_strptime_ok strptime_midnight by blast
  have b: "(lower (strip s') = ''tomorrow'' \<or> lower (strip s') \<in> set weekdays)
        \<and> valid_datetime now \<and> toordinal now + 7 \<le> MAXORDINAL
      \<longrightarrow> (\<exists>d. parse_due_date now s' = Inr (Some d) \<and> time_us d = time_us now)"
  proof (intro impI, elim conjE disjE)
    assume "lower (strip s') = ''tomorrow''" "valid_datetime now"
      "toordinal now + 7 \<le> MAXORDINAL"
    from parse_tomorrow_result[OF this] show
      "\<exists>d. parse_due_date now s' = Inr (Some d) \<and> time_us d = time_us now" by simp
  next
    assume "lower (strip s') \<in> set weekdays" "valid_datetime now"
      "toordinal now + 7 \<le> MAXORDINAL"
    from parse_weekday_result[OF this] obtain k where
      "parse_due_date now s' = Inr (Some (now\<lparr>toordinal := toordinal now + k\<rparr>))" by blast
    then show "\<exists>d. parse_due_date now s' = Inr (Some d) \<and> time_us d = time_us now" by simp
  qed
  have c: "\<exists>now0 s1 s2 d1 d2.
         parse_due_date now0 s1 = Inr (Some d1) \<and> parse_due_date now0 s2 = Inr (Some d2)
         \<and> toordinal d1 = toordinal d2
         \<and> dt_key (due_or_max (t\<lparr>due_date := Some d1\<rparr>))
             \<noteq> dt_key (due_or_max (t\<lparr>due_date := Some d2\<rparr>))"
    apply (rule exI[of _ ex_now], rule exI[of _ "''tomorrow''"], rule exI[of _ "''01/11/2025''"])
    apply (rule exI[of _ "\<lparr>toordinal = 739262, time_us = 43200000000\<rparr>"])
    apply (rule exI[of _ "\<lparr>toordinal = 739262, time_us = 0\<rparr>"])
    apply (simp add: ex_parse_tomorrow ex_parse_date due_or_max_def dt_key_def)
    done
  show ?thesis using a b c by blast
qed

theorem due_date_time_of_day_witness:
  "strptime ''01/11/2025'' = Inr \<lparr>toordinal = 739262, time_us = 0\<rparr>
   \<and> lower (strip ''tomorrow'') = ''tomorrow''
   \<and> valid_datetime ex_now \<and> toordinal ex_now + 7 \<le> MAXORDINAL
   \<and> parse_due_date ex_now ''01/11/2025'' = Inr (Some \<lparr>toordinal = 739262, time_us = 0\<rparr>)
   \<and> (\<exists>d. parse_due_date ex_now ''tomorrow'' = Inr (Some d) \<and> time_us d = time_us ex_now)"
proof -
  have a: "strptime ''01/11/2025'' = Inr \<lparr>toordinal = 739262, time_us = 0\<rparr>" by code_simp
  have b: "lower (strip ''tomorrow'') = ''tomorrow''" by code_simp
  show ?thesis
    using due_date_time_of_day[of "''01/11/2025''" ex_now "''tomorrow''"] a b ex_now_valid
    by simp
qed

section \<open>The date parser: calendar dates\<close>

lemma digit_val_digit_char: "0 \<le> k \<Longrightarrow> k \<le> 9 \<Longrightarrow> digit_val (digit_char k) = Some k"
  by (simp add: digit_val_def digit_char_def Let_def)

lemma fmt2_values:
  "fmt2 1 = ''01''" "fmt2 2 = ''02''" "fmt2 3 = ''03''" "fmt2 4 = ''04''" "fmt2 5 = ''05''"
  "fmt2 6 = ''06''" "fmt2 7 = ''07''" "fmt2 8 = ''08''" "fmt2 9 = ''09''" "fmt2 10 = ''10''"
  "fmt2 11 = ''11''" "fmt2 12 = ''12''" "fmt2 13 = ''13''" "fmt2 14 = ''14''"
  "fmt2 15 = ''15''" "fmt2 16 = ''16''" "fmt2 17 = ''17''" "fmt2 18 = ''18''"
  "fmt2 19 = ''19''" "fmt2 20 = ''20''" "fmt2 21 = ''21''" "fmt2 22 = ''22''"
  "fmt2 23 = ''23''" "fmt2 24 = ''24''" "fmt2 25 = ''25''" "fmt2 26 = ''26''"
  "fmt2 27 = ''27''" "fmt2 28 = ''28''" "fmt2 29 = ''29''" "fmt2 30 = ''30''"
  "fmt2 31 = ''31''"
  by (code_simp, code_simp, code_simp, code_simp, code_simp, code_simp, code_simp, code_simp,
      code_simp, code_simp, code_simp, code_simp, code_simp, code_simp, code_simp, code_simp,
      code_simp, code_simp, code_simp, code_simp, code_simp, code_simp, code_simp, code_simp,
      code_simp, code_simp, code_simp, code_simp, code_simp, code_simp, code_simp)

lemmas re_defs = re_m_def re_d_def two_chars_def one_char_def digit_in_def digit_val_def
  dv_def slash_def is_digit_def

lemma re_m_fmt2:
  assumes "1 \<le> m" "m \<le> 12"
  shows "concat (map (\<lambda>(m', r1). concat (map (F m') (slash r1)))
           (re_m (fmt2 m @ CHR ''/'' # r))) = F m r"
proof -
  have "m = 1 \<or> m = 2 \<or> m = 3 \<or> m = 4 \<or> m = 5 \<or> m = 6 \<or> m = 7 \<or> m = 8 \<or> m = 9
        \<or> m = 10 \<or> m = 11 \<or> m = 12"
    using assms by arith
  then show ?thesis
    by (elim disjE) (simp_all add: fmt2_values re_defs)
qed

lemma re_d_fmt2:
  assumes "1 \<le> d" "d \<le> 31"
  shows "concat (map (\<lambda>(d', r1). concat (map (F d') (slash r1)))
           (re_d (fmt2 d @ CHR ''/'' # r))) = F d r"
proof -
  have "d = 1 \<or> d = 2 \<or> d = 3 \<or> d = 4 \<or> d = 5 \<or> d = 6 \<or> d = 7
    \<or> d = 8 \<or> d = 9 \<or> d = 10 \<or> d = 11 \<or> d = 12 \<or> d = 13 \<or> d = 14
    \<or> d = 15 \<or> d = 16 \<or> d = 17 \<or> d = 18 \<or> d = 19 \<or> d = 20 \<or> d = 21
    \<or> d = 22 \<or> d = 23 \<or> d = 24 \<or> d = 25 \<or> d = 26 \<or> d = 27 \<or> d = 28
    \<or> d = 29 \<or> d = 30 \<or> d = 31"
    using assms by arith
  then show ?thesis
    by (elim disjE) (simp_all add: fmt2_values re_defs)
qed

lemma decimal4:
  fixes y :: int
  assumes "0 \<le> y" "y \<le> 9999"
  shows "1000 * (y div 1000) + 100 * (y div 100 mod 10) + 10 * (y div 10 mod 10) + y mod 10 = y"
proof -
  have a: "y div 100 mod 10 = y div 100 - 10 * (y div 1000)"
    by (simp add: minus_mult_div_eq_mod[symmetric] zdiv_zmult2_eq[symmetric])
  have b: "y div 10 mod 10 = y div 10 - 10 * (y div 100)"
    by (simp add: minus_mult_div_eq_mod[symmetric] zdiv_zmult2_eq[symmetric])
  have c: "y mod 10 = y - 10 * (y div 10)"
    by (simp add: minus_mult_div_eq_mod[symmetric])
  show ?thesis unfolding a b c by simp
qed

lemma re_Y_fmt4:
  assumes "0 \<le> y" "y \<le> 9999"
  shows "re_Y (fmt4 y) = [(y, [])]"
proof -
  have r: "0 \<le> y div 1000" "y div 1000 \<le> 9" "0 \<le> y div 100 mod 10" "y div 100 mod 10 \<le> 9"
    "0 \<le> y div 10 mod 10" "y div 10 mod 10 \<le> 9" "0 \<le> y mod 10" "y mod 10 \<le> 9"
    using assms by simp_all
  show ?thesis
    unfolding re_Y_def fmt4_def
    by (simp add: is_digit_def dv_def digit_val_digit_char r decimal4[OF assms])
qed

lemma re_match_mdY:
  assumes "1 \<le> m" "m \<le> 12" "1 \<le> d" "d \<le> 31" "0 \<le> y" "y \<le> 9999"
  shows "re_match (mdY m d y) = [(m, d, y, [])]"
proof -
  have s: "mdY m d y = fmt2 m @ CHR ''/'' # (fmt2 d @ CHR ''/'' # fmt4 y)"
    by (simp add: mdY_def)
  show ?thesis
    unfolding re_match_def s
    by (simp only: re_m_fmt2[OF assms(1,2)] re_d_fmt2[OF assms(3,4)] re_Y_fmt4[OF assms(5,6)])
       simp
qed

lemma days_in_month_le: "days_in_month y m \<le> 31"
  by (simp add: days_in_month_def)

lemma strptime_mdY:
  assumes "1 \<le> y" "y \<le> 9999" "1 \<le> m" "m \<le> 12" "1 \<le> d" "d \<le> days_in_month y m"
  shows "strptime (mdY m d y) = Inr \<lparr>toordinal = ymd2ord y m d, time_us = 0\<rparr>"
proof -
  have "d \<le> 31" using assms(6) days_in_month_le[of y m] by linarith
  then have "re_match (mdY m d y) = [(m, d, y, [])]"
    using assms by (intro re_match_mdY) simp_all
  then show ?thesis
    using assms by (simp add: strptime_def datetime_new_def)
qed

lemma div_step:
  fixes y k :: int
  assumes k: "0 < k"
  shows "y div k = (y - 1) div k + (if y mod k = 0 then 1 else 0)"
proof -
  define q where "q = (y - 1) div k"
  define r where "r = (y - 1) mod k"
  have r: "0 \<le> r" "r < k" using k unfolding r_def by simp_all
  have y: "y = k * q + (r + 1)"
    unfolding q_def r_def by simp
  show ?thesis
  proof (cases "r + 1 = k")
    case True
    then have y': "y = k * (q + 1) + 0" using y by (simp add: algebra_simps)
    have "y div k = q + 1" using y' k by (intro int_div_pos_eq[of y k "q + 1" 0]) simp_all
    moreover have "y mod k = 0" using y' k by (intro int_mod_pos_eq[of y k "q + 1" 0]) simp_all
    ultimately show ?thesis unfolding q_def by simp
  next
    case False
    then have b: "0 \<le> r + 1" "r + 1 < k" "r + 1 \<noteq> 0" using r by simp_all
    have "y div k = q" using y b(1,2) by (intro int_div_pos_eq[of y k q "r + 1"]) simp_all
    moreover have "y mod k = r + 1" using y b(1,2) by (intro int_mod_pos_eq[of y k q "r + 1"]) simp_all
    ultimately show ?thesis using b unfolding q_def by simp
  qed
qed

lemma days_before_year_step:
  "days_before_year (y + 1) = days_before_year y + (if is_leap y then 366 else 365)"
proof -
  define a where "a = (y - 1) div 4"
  define b where "b = (y - 1) div 100"
  define c where "c = (y - 1) div 400"
  define p4 where "p4 \<longleftrightarrow> y mod 4 = 0"
  define p100 where "p100 \<longleftrightarrow> y mod 100 = 0"
  define p400 where "p400 \<longleftrightarrow> y mod 400 = 0"
  define e4 :: int where "e4 = (if p4 then 1 else 0)"
  define e100 :: int where "e100 = (if p100 then 1 else 0)"
  define e400 :: int where "e400 = (if p400 then 1 else 0)"
  have s4: "y div 4 = a + e4" unfolding a_def e4_def p4_def by (rule div_step) simp
  have s100: "y div 100 = b + e100" unfolding b_def e100_def p100_def by (rule div_step) simp
  have s400: "y div 400 = c + e400" unfolding c_def e400_def p400_def by (rule div_step) simp
  have n: "days_before_year (y + 1) = y * 365 + y div 4 - y div 100 + y div 400"
    by (simp add: days_before_year_def Let_def)
  have o: "days_before_year y = (y - 1) * 365 + a - b + c"
    by (simp add: days_before_year_def Let_def a_def b_def c_def)
  have d1: "(100::int) dvd 400" and d2: "(4::int) dvd 100" by simp_all
  have m: "p400 \<longrightarrow> p100" "p100 \<longrightarrow> p4"
    unfolding p4_def p100_def p400_def
    using dvd_trans[OF d1, of y] dvd_trans[OF d2, of y] by (simp_all add: mod_eq_0_iff_dvd)
  have il: "is_leap y \<longleftrightarrow> p4 \<and> (\<not> p100 \<or> p400)"
    unfolding is_leap_def p4_def p100_def p400_def by (rule refl)
  have l: "(if is_leap y then 366 else 365) = 365 + e4 - e100 + e400"
    unfolding il e4_def e100_def e400_def using m
    by (cases p4; cases p100; cases p400; simp)
  show ?thesis
    unfolding n o l s4 s100 s400 by (simp add: algebra_simps)
qed

lemma days_before_year_mono:
  assumes "y \<le> y'" shows "days_before_year y \<le> days_before_year y'"
  using assms
proof (induction y' rule: int_ge_induct)
  case base
  then show ?case by simp
next
  case (step i)
  then show ?case using days_before_year_step[of i] by (simp split: if_splits)
qed

lemma month_cases:
  fixes m :: int
  assumes "1 \<le> m" "m \<le> 12"
  shows "m = 1 \<or> m = 2 \<or> m = 3 \<or> m = 4 \<or> m = 5 \<or> m = 6 \<or> m = 7 \<or> m = 8 \<or> m = 9 \<or> m = 10 \<or> m = 11 \<or> m = 12"
  using assms by arith

lemma day_of_year_bounds:
  assumes "1 \<le> m" "m \<le> 12" "1 \<le> d" "d \<le> days_in_month y m"
  shows "1 \<le> days_before_month y m + d
       \<and> days_before_month y m + d \<le> (if is_leap y then 366 else 365)"
  using month_cases[OF assms(1,2)] assms(3,4)
  by (elim disjE) (auto simp: days_before_month_def days_in_month_def split: if_splits)

lemma days_before_month_next:
  assumes "1 \<le> m" "m < 12"
  shows "days_before_month y (m + 1) = days_before_month y m + days_in_month y m"
proof -
  have "m \<le> 12" using assms by simp
  from month_cases[OF assms(1) this] assms(2) show ?thesis
    by (elim disjE) (simp_all add: days_before_month_def days_in_month_def)
qed

lemma days_in_month_pos: "0 < days_in_month y m"
  by (simp add: days_in_month_def)

lemma days_before_month_mono:
  assumes "1 \<le> m" "m \<le> m'" "m' \<le> 12"
  shows "days_before_month y m \<le> days_before_month y m'"
  using assms(2,1,3)
proof (induction m' rule: int_ge_induct)
  case base
  then show ?case by simp
next
  case (step i)
  then have "days_before_month y (i + 1) = days_before_month y i + days_in_month y i"
    by (intro days_before_month_next) simp_all
  then show ?case using step days_in_month_pos[of y i] by simp
qed

lemma ymd2ord_year_less:
  assumes "y < y'" "1 \<le> m" "m \<le> 12" "1 \<le> d" "d \<le> days_in_month y m"
    "1 \<le> m'" "m' \<le> 12" "1 \<le> d'" "d' \<le> days_in_month y' m'"
  shows "ymd2ord y m d < ymd2ord y' m' d'"
proof -
  have "ymd2ord y m d \<le> days_before_year y + (if is_leap y then 366 else 365)"
    using day_of_year_bounds[OF assms(2-5)] by (simp add: ymd2ord_def)
  also have "\<dots> = days_before_year (y + 1)"
    by (simp only: days_before_year_step)
  also have "\<dots> \<le> days_before_year y'"
    using assms(1) by (intro days_before_year_mono) simp
  also have "\<dots> < ymd2ord y' m' d'"
    using day_of_year_bounds[OF assms(6-9)] by (simp add: ymd2ord_def)
  finally show ?thesis .
qed

lemma ymd2ord_month_less:
  assumes "m < m'" "1 \<le> m" "1 \<le> d" "d \<le> days_in_month y m" "m' \<le> 12" "1 \<le> d'"
  shows "ymd2ord y m d < ymd2ord y m' d'"
proof -
  have "days_before_month y m + d \<le> days_before_month y (m + 1)"
    using assms by (simp add: days_before_month_next)
  also have "\<dots> \<le> days_before_month y m'"
    using assms by (intro days_before_month_mono) simp_all
  finally show ?thesis using assms(6) by (simp add: ymd2ord_def)
qed

lemma ymd2ord_inj:
  assumes "1 \<le> m" "m \<le> 12" "1 \<le> d" "d \<le> days_in_month y m"
    "1 \<le> m'" "m' \<le> 12" "1 \<le> d'" "d' \<le> days_in_month y' m'"
    and eq: "ymd2ord y' m' d' = ymd2ord y m d"
  shows "y' = y \<and> m' = m \<and> d' = d"
proof -
  have y: "y' = y"
  proof (rule ccontr)
    assume "y' \<noteq> y"
    then consider "y < y'" | "y' < y" by linarith
    then show False
    proof cases
      case 1
      from ymd2ord_year_less[OF 1 assms(1-8)] eq show False by simp
    next
      case 2
      from ymd2ord_year_less[OF 2 assms(5-8) assms(1-4)] eq show False by simp
    qed
  qed
  have m: "m' = m"
  proof (rule ccontr)
    assume "m' \<noteq> m"
    then consider "m < m'" | "m' < m" by linarith
    then show False
    proof cases
      case 1
      from ymd2ord_month_less[OF 1 assms(1,3,4) assms(6,7)] eq y show False by simp
    next
      case 2
      from ymd2ord_month_less[OF 2 assms(5,7) assms(8)[unfolded y] assms(2,3)] eq y
      show False by simp
    qed
  qed
  show ?thesis using y m eq by (simp add: ymd2ord_def)
qed

lemma ymd2ord_range:
  assumes "1 \<le> y" "y \<le> 9999" "1 \<le> m" "m \<le> 12" "1 \<le> d" "d \<le> days_in_month y m"
  shows "1 \<le> ymd2ord y m d \<and> ymd2ord y m d \<le> MAXORDINAL"
proof -
  have lo: "days_before_year 1 \<le> days_before_year y"
    using assms(1) by (rule days_before_year_mono)
  have "ymd2ord y m d \<le> days_before_year y + (if is_leap y then 366 else 365)"
    using day_of_year_bounds[OF assms(3-6)] by (simp add: ymd2ord_def)
  also have "\<dots> = days_before_year (y + 1)"
    by (simp only: days_before_year_step)
  also have "\<dots> \<le> days_before_year 10000"
    using assms(2) by (intro days_before_year_mono) simp
  finally have hi: "ymd2ord y m d \<le> days_before_year 10000" .
  have "days_before_year 1 = 0" "days_before_year 10000 = 3652059"
    by (simp_all add: days_before_year_def)
  then show ?thesis
    using lo hi day_of_year_bounds[OF assms(3-6)] by (simp add: ymd2ord_def MAXORDINAL_def)
qed

text \<open>
  C8. For every date of the calendar, the text of its month, day and year in the form
  MM/DD/YYYY is parsed to that date: the day whose ordinal is the one of (year, month,
  day), which is the ordinal of no other date and lies in the range of
  \<^verbatim>\<open>datetime\<close>, at midnight.
\<close>

theorem parse_mdY_exact:
  assumes "1 \<le> y" "y \<le> 9999" "1 \<le> m" "m \<le> 12" "1 \<le> d" "d \<le> days_in_month y m"
  shows "parse_due_date now (mdY m d y) = Inr (Some \<lparr>toordinal = ymd2ord y m d, time_us = 0\<rparr>)
         \<and> (\<forall>y' m' d'. 1 \<le> m' \<and> m' \<le> 12 \<and> 1 \<le> d' \<and> d' \<le> days_in_month y' m'
                \<and> ymd2ord y' m' d' = ymd2ord y m d \<longrightarrow> y' = y \<and> m' = m \<and> d' = d)
         \<and> valid_datetime \<lparr>toordinal = ymd2ord y m d, time_us = 0\<rparr>"
proof -
  have a: "parse_due_date now (mdY m d y)
           = Inr (Some \<lparr>toordinal = ymd2ord y m d, time_us = 0\<rparr>)"
    using strptime_mdY[OF assms] by (rule parse_strptime_ok)
  have b: "\<forall>y' m' d'. 1 \<le> m' \<and> m' \<le> 12 \<and> 1 \<le> d' \<and> d' \<le> days_in_month y' m'
                \<and> ymd2ord y' m' d' = ymd2ord y m d \<longrightarrow> y' = y \<and> m' = m \<and> d' = d"
    using ymd2ord_inj[OF assms(3-6)] by blast
  have c: "valid_datetime \<lparr>toordinal = ymd2ord y m d, time_us = 0\<rparr>"
    using ymd2ord_range[OF assms] by (simp add: valid_datetime_def US_PER_DAY_def)
  show ?thesis using a b c by blast
qed

theorem parse_mdY_exact_witness:
  "(1::int) \<le> 2024 \<and> (2024::int) \<le> 9999 \<and> (1::int) \<le> 2 \<and> (2::int) \<le> 12 \<and> (1::int) \<le> 29
   \<and> 29 \<le> days_in_month 2024 2
   \<and> mdY 2 29 2024 = ''02/29/2024''
   \<and> ymd2ord 2024 2 29 = 738945
   \<and> parse_due_date ex_now ''02/29/2024'' = Inr (Some \<lparr>toordinal = 738945, time_us = 0\<rparr>)"
proof -
  have h: "29 \<le> days_in_month 2024 2" by (simp add: days_in_month_def is_leap_def)
  have s: "mdY 2 29 2024 = ''02/29/2024''" by code_simp
  have o: "ymd2ord 2024 2 29 = 738945"
    by (simp add: ymd2ord_def days_before_year_def days_before_month_def is_leap_def)
  show ?thesis
    using parse_mdY_exact[of 2024 2 29 ex_now, OF _ _ _ _ _ h] h s o by simp
qed

section \<open>The task store\<close>

lemma set_list_tasks: "set (list_tasks self) = {t \<in> set (tasks self). \<not> is_done t}"
  by (auto simp: list_tasks_def)

lemma set_report: "set (report self) = set (tasks self)"
  by (simp add: report_def)

lemma tasks_Tasks_init: "set (tasks (Tasks_init (Some ts))) = set ts"
  by (simp add: Tasks_init_def)

lemma find_first_Some:
  "find_first p xs = Some k \<Longrightarrow> k < length xs \<and> p (xs ! k) \<and> (\<forall>j < k. \<not> p (xs ! j))"
proof (induction xs arbitrary: k)
  case Nil
  then show ?case by simp
next
  case (Cons x xs)
  show ?case
  proof (cases "p x")
    case True
    then show ?thesis using Cons.prems by simp
  next
    case False
    then obtain k' where k: "find_first p xs = Some k'" "k = Suc k'"
      using Cons.prems by auto
    from Cons.IH[OF k(1)] show ?thesis
      using False k(2) by (auto simp: less_Suc_eq_0_disj)
  qed
qed

lemma find_first_None: "find_first p xs = None \<longleftrightarrow> (\<forall>x \<in> set xs. \<not> p x)"
  by (induction xs) auto

lemma done_task_found:
  assumes "py_int s = Some i" "find_first (\<lambda>t. id_task t = i) (tasks self) = Some k"
  shows "done_task now s self =
           (Inr (Completed i),
            \<lparr>tasks = (tasks self)[k := mark_completed now (tasks self ! k)],
             pickle_file = Some ((tasks self)[k := mark_completed now (tasks self ! k)])\<rparr>)"
  using assms find_first_Some[OF assms(2)]
  by (simp add: done_task_def Let_def pickle_tasks_def mark_completed_def)

lemma done_task_missing:
  assumes "py_int s = Some i" "find_first (\<lambda>t. id_task t = i) (tasks self) = None"
  shows "done_task now s self = (Inr Not_found, self)"
  using assms by (simp add: done_task_def)

lemma distinct_id_nth:
  assumes "distinct (map id_task ts)" "k < length ts" "j < length ts"
    "id_task (ts ! j) = id_task (ts ! k)"
  shows "j = k"
proof -
  have "map id_task ts ! j = map id_task ts ! k" using assms by simp
  then show ?thesis
    using assms(1,2,3) by (simp add: nth_eq_iff_index_eq del: nth_map)
qed

text \<open>
  C3. When the id is present (ids being unique), done marks the task: no row of list has
  that id, a row of report has it with the completion time set to the clock, and the
  file holds the whole collection, the same tasks otherwise; a store loaded from the
  file lists the same.
\<close>

theorem done_then_listings:
  assumes "py_int s = Some i" "i \<in> id_task ` set (tasks self)"
    "distinct (map id_task (tasks self))"
  shows "\<exists>self'. done_task now s self = (Inr (Completed i), self')
     \<and> (\<forall>t \<in> set (list_tasks self'). id_task t \<noteq> i)
     \<and> (\<exists>t \<in> set (report self'). id_task t = i \<and> completed t = Some now)
     \<and> pickle_file self' = Some (tasks self')
     \<and> map id_task (tasks self') = map id_task (tasks self)
     \<and> (\<forall>t \<in> set (tasks self). id_task t \<noteq> i \<longrightarrow> t \<in> set (tasks self'))
     \<and> (\<forall>t \<in> set (list_tasks (Tasks_init (pickle_file self'))). id_task t \<noteq> i)
     \<and> (\<exists>t \<in> set (report (Tasks_init (pickle_file self'))).
           id_task t = i \<and> completed t = Some now)"
proof -
  let ?ts = "tasks self"
  have "find_first (\<lambda>t. id_task t = i) ?ts \<noteq> None"
    using assms(2) by (auto simp: find_first_None)
  then obtain k where k: "find_first (\<lambda>t. id_task t = i) ?ts = Some k" by auto
  from find_first_Some[OF k] have kl: "k < length ?ts" and ki: "id_task (?ts ! k) = i"
    by simp_all
  define m where "m = mark_completed now (?ts ! k)"
  define ts' where "ts' = ?ts[k := m]"
  define self' where "self' = \<lparr>tasks = ts', pickle_file = Some ts'\<rparr>"
  have d: "done_task now s self = (Inr (Completed i), self')"
    using done_task_found[OF assms(1) k] unfolding self'_def ts'_def m_def by simp
  have mi: "id_task m = i" "completed m = Some now"
    using ki unfolding m_def mark_completed_def by simp_all
  have ids: "map id_task ts' = map id_task ?ts"
    unfolding ts'_def using kl ki mi(1) by (simp add: map_update list_update_same_conv)
  have mem: "m \<in> set ts'"
    unfolding ts'_def using kl by (simp add: set_update_memI)
  have only: "t = m" if "t \<in> set ts'" "id_task t = i" for t
  proof -
    from that(1) obtain j where j: "j < length ts'" "ts' ! j = t"
      by (auto simp: in_set_conv_nth)
    have l: "length ts' = length ?ts" unfolding ts'_def by simp
    have "map id_task ts' ! j = i" using j that(2) by simp
    then have "id_task (?ts ! j) = id_task (?ts ! k)"
      using ids j(1) l ki by simp
    then have "j = k"
      using distinct_id_nth[OF assms(3) kl] j(1) l by simp
    then show ?thesis using j(2) kl unfolding ts'_def by simp
  qed
  have notdone: "\<forall>t \<in> set ts'. \<not> is_done t \<longrightarrow> id_task t \<noteq> i"
    using only mi(2) by (auto simp: is_done_def)
  have keep: "\<forall>t \<in> set ?ts. id_task t \<noteq> i \<longrightarrow> t \<in> set ts'"
  proof (intro ballI impI)
    fix t assume t: "t \<in> set ?ts" "id_task t \<noteq> i"
    then obtain j where j: "j < length ?ts" "?ts ! j = t" by (auto simp: in_set_conv_nth)
    then have "j \<noteq> k" using ki t(2) by auto
    then have "ts' ! j = t" using j unfolding ts'_def by simp
    then show "t \<in> set ts'" using j(1) unfolding ts'_def
      by (metis length_list_update nth_mem)
  qed
  have a: "\<forall>t \<in> set (list_tasks self'). id_task t \<noteq> i"
    using notdone by (simp add: set_list_tasks self'_def)
  have b: "\<exists>t \<in> set (report self'). id_task t = i \<and> completed t = Some now"
    using mem mi by (auto simp: set_report self'_def)
  have a': "\<forall>t \<in> set (list_tasks (Tasks_init (pickle_file self'))). id_task t \<noteq> i"
    using notdone by (simp add: set_list_tasks self'_def tasks_Tasks_init)
  have b': "\<exists>t \<in> set (report (Tasks_init (pickle_file self'))).
           id_task t = i \<and> completed t = Some now"
    using mem mi by (auto simp: set_report self'_def tasks_Tasks_init)
  have c: "pickle_file self' = Some (tasks self')"
    "map id_task (tasks self') = map id_task ?ts"
    "\<forall>t \<in> set ?ts. id_task t \<noteq> i \<longrightarrow> t \<in> set (tasks self')"
    using ids keep by (simp_all add: self'_def)
  show ?thesis
    using d a b c a' b' by blast
qed

lemma ex_store_ids:
  "py_int ''102'' = Some 102 \<and> 102 \<in> id_task ` set (tasks ex_store)
   \<and> distinct (map id_task (tasks ex_store))"
proof -
  have "py_int ''102'' = Some 102" by code_simp
  then show ?thesis
    by (simp add: ex_store_tasks ex_t1_def ex_t2_def ex_t3_def)
qed

theorem done_then_listings_witness:
  "py_int ''102'' = Some 102 \<and> 102 \<in> id_task ` set (tasks ex_store)
   \<and> distinct (map id_task (tasks ex_store))
   \<and> (\<exists>self'. done_task ex_now ''102'' ex_store = (Inr (Completed 102), self')
         \<and> (\<forall>t \<in> set (list_tasks self'). id_task t \<noteq> 102)
         \<and> (\<exists>t \<in> set (report self'). id_task t = 102 \<and> completed t = Some ex_now)
         \<and> pickle_file self' = Some (tasks self'))"
proof -
  have h: "py_int ''102'' = Some 102" "102 \<in> id_task ` set (tasks ex_store)"
    "distinct (map id_task (tasks ex_store))"
    using ex_store_ids by simp_all
  show ?thesis
    using done_then_listings[OF h, of ex_now] h by blast
qed

lemma filter_unique_id:
  assumes "distinct (map id_task (pre @ t # post))"
  shows "filter (\<lambda>x. \<not> id_task x = id_task t) (pre @ t # post) = pre @ post"
proof -
  have "id_task t \<notin> id_task ` set pre" "id_task t \<notin> id_task ` set post"
    using assms by auto
  then have "\<forall>x \<in> set pre \<union> set post. id_task x \<noteq> id_task t"
    by (metis Un_iff imageI)
  then show ?thesis by (simp add: filter_id_conv)
qed

text \<open>
  C5. delete with the id of a task of the store (ids being unique) takes exactly that
  task out of the collection, writes the rest to the file and reports the deletion;
  with an id of no task it leaves the collection and the file as they are and reports
  that the task was not found.
\<close>

theorem delete_task:
  "(py_int s = Some i \<and> distinct (map id_task (tasks self)) \<and> i \<in> id_task ` set (tasks self)
      \<longrightarrow> (\<exists>pre t post. tasks self = pre @ t # post \<and> id_task t = i
            \<and> delete s self
                = (Inr (Deleted i), \<lparr>tasks = pre @ post, pickle_file = Some (pre @ post)\<rparr>)))
   \<and> (py_int s = Some i \<and> i \<notin> id_task ` set (tasks self)
      \<longrightarrow> delete s self = (Inr Not_found, self))"
proof (intro conjI impI)
  assume a: "py_int s = Some i \<and> distinct (map id_task (tasks self))
             \<and> i \<in> id_task ` set (tasks self)"
  then obtain t where "t \<in> set (tasks self)" "id_task t = i" by auto
  then obtain pre post where sp: "tasks self = pre @ t # post"
    by (auto simp: in_set_conv_decomp)
  have f: "filter (\<lambda>x. \<not> id_task x = i) (tasks self) = pre @ post"
    using filter_unique_id[of pre t post] a sp \<open>id_task t = i\<close> by simp
  have "delete s self
        = (Inr (Deleted i), \<lparr>tasks = pre @ post, pickle_file = Some (pre @ post)\<rparr>)"
    using a unfolding delete_def Let_def pickle_tasks_def
    by (simp add: f) (simp add: sp)
  then show "\<exists>pre t post. tasks self = pre @ t # post \<and> id_task t = i
            \<and> delete s self
                = (Inr (Deleted i), \<lparr>tasks = pre @ post, pickle_file = Some (pre @ post)\<rparr>)"
    using sp \<open>id_task t = i\<close> by blast
next
  assume a: "py_int s = Some i \<and> i \<notin> id_task ` set (tasks self)"
  then have "filter (\<lambda>x. \<not> id_task x = i) (tasks self) = tasks self"
    by (auto simp: filter_id_conv)
  then show "delete s self = (Inr Not_found, self)"
    using a unfolding delete_def Let_def by simp
qed

theorem delete_task_witness:
  "py_int ''102'' = Some 102 \<and> distinct (map id_task (tasks ex_store))
   \<and> 102 \<in> id_task ` set (tasks ex_store)
   \<and> py_int ''7'' = Some 7 \<and> 7 \<notin> id_task ` set (tasks ex_store)
   \<and> (\<exists>pre t post. tasks ex_store = pre @ t # post \<and> id_task t = 102
         \<and> delete ''102'' ex_store
             = (Inr (Deleted 102), \<lparr>tasks = pre @ post, pickle_file = Some (pre @ post)\<rparr>))
   \<and> delete ''7'' ex_store = (Inr Not_found, ex_store)"
proof -
  have h: "py_int ''102'' = Some 102 \<and> distinct (map id_task (tasks ex_store))
           \<and> 102 \<in> id_task ` set (tasks ex_store)"
    using ex_store_ids by simp
  have "py_int ''7'' = Some 7" by code_simp
  then have g: "py_int ''7'' = Some 7 \<and> 7 \<notin> id_task ` set (tasks ex_store)"
    by (simp add: ex_store_tasks ex_t1_def ex_t2_def ex_t3_def)
  show ?thesis
    using delete_task[of "''102''" 102 ex_store] delete_task[of "''7''" 7 ex_store] h g
    by blast
qed

text \<open>
  C4. query gives exactly the tasks of the collection that are not completed and whose
  name, in lower case, contains one of the terms, in lower case, as a contiguous part;
  a completed task is left out whatever its name; the rows are the matching rows of
  list, in the order of list.
\<close>

theorem query_selection:
  "mset (query terms self)
     = filter_mset (\<lambda>t. completed t = None
          \<and> (\<exists>trm \<in> set terms. \<exists>ps ss. lower (name t) = ps @ lower trm @ ss))
        (mset (tasks self))
   \<and> query terms self
       = filter (\<lambda>t. \<exists>trm \<in> set terms. \<exists>ps ss. lower (name t) = ps @ lower trm @ ss)
           (list_tasks self)
   \<and> query terms self
       = sort_key list_key
           (filter (\<lambda>t. completed t = None
               \<and> (\<exists>trm \<in> set terms. \<exists>ps ss. lower (name t) = ps @ lower trm @ ss))
             (tasks self))
   \<and> list_tasks self = sort_key list_key (filter (\<lambda>t. completed t = None) (tasks self))"
proof -
  have e: "list_ex (\<lambda>trm. sublist (lower trm) (lower (name t))) terms
           \<longleftrightarrow> (\<exists>trm \<in> set terms. \<exists>ps ss. lower (name t) = ps @ lower trm @ ss)" for t
    by (simp add: list_ex_iff sublist_def)
  have q: "query terms self
       = sort_key list_key
           (filter (\<lambda>t. completed t = None
               \<and> (\<exists>trm \<in> set terms. \<exists>ps ss. lower (name t) = ps @ lower trm @ ss))
             (tasks self))"
    unfolding query_def is_done_def e by simp
  have l: "list_tasks self = sort_key list_key (filter (\<lambda>t. completed t = None) (tasks self))"
    unfolding list_tasks_def is_done_def by simp
  have f: "query terms self
       = filter (\<lambda>t. \<exists>trm \<in> set terms. \<exists>ps ss. lower (name t) = ps @ lower trm @ ss)
           (list_tasks self)"
    unfolding q l by (simp add: filter_sort conj_commute)
  have m: "mset (query terms self)
     = filter_mset (\<lambda>t. completed t = None
          \<and> (\<exists>trm \<in> set terms. \<exists>ps ss. lower (name t) = ps @ lower trm @ ss))
        (mset (tasks self))"
    unfolding q by simp
  show ?thesis using m f q l by blast
qed

theorem query_selection_witness:
  "query [''GROCER''] ex_store = [ex_t2] \<and> ''GROCER'' \<in> set [''GROCER'']
   \<and> lower (name ex_t2) = ''buy '' @ lower ''GROCER'' @ ''ies''"
proof -
  have n: "name ex_t1 = ''Call the bank''" "name ex_t2 = ''Buy groceries''"
    "name ex_t3 = ''File taxes''"
    by (simp_all add: ex_t1_def ex_t2_def ex_t3_def)
  have s: "\<not> sublist (lower ''GROCER'') (lower ''Call the bank'')"
    "sublist (lower ''GROCER'') (lower ''Buy groceries'')"
    "\<not> sublist (lower ''GROCER'') (lower ''File taxes'')"
    by code_simp+
  have e: "lower ''Buy groceries'' = ''buy '' @ lower ''GROCER'' @ ''ies''" by code_simp
  have "query [''GROCER''] ex_store
        = filter (\<lambda>t. \<exists>trm \<in> set [''GROCER''].
                     \<exists>ps ss. lower (name t) = ps @ lower trm @ ss) (list_tasks ex_store)"
    using query_selection[of "[''GROCER'']" ex_store] by blast
  also have "\<dots> = filter (\<lambda>t. sublist (lower ''GROCER'') (lower (name t))) [ex_t3, ex_t2, ex_t1]"
    by (simp add: sublist_def ex_store_list)
  also have "\<dots> = [ex_t2]"
    using s by (simp add: n)
  finally show ?thesis using e n by simp
qed

lemma Tasks_init_created_sorted:
  "sorted (map (\<lambda>t. dt_key (created t)) (tasks (Tasks_init file)))"
  by (simp add: Tasks_init_def)

lemma Tasks_init_sorted:
  "sorted (map (\<lambda>t. dt_key (created t)) ts) \<Longrightarrow> tasks (Tasks_init (Some ts)) = ts"
  by (simp add: Tasks_init_def sort_key_id_if_sorted)

text \<open>
  C7. Writing the collection to the file and loading it again gives the same tasks, each
  with all its fields (id, name, priority, due date or none, creation time, completion
  time or none) as they were; the load puts them in the order of creation, so a
  collection in that order, as every loaded one is, comes back as the same list.
\<close>

theorem pickle_round_trip:
  "pickle_file (pickle_tasks self) = Some (tasks self)
   \<and> mset (tasks (Tasks_init (pickle_file (pickle_tasks self)))) = mset (tasks self)
   \<and> (sorted (map (\<lambda>t. dt_key (created t)) (tasks self))
        \<longrightarrow> tasks (Tasks_init (pickle_file (pickle_tasks self))) = tasks self)
   \<and> tasks (Tasks_init (pickle_file (pickle_tasks (Tasks_init file))))
       = tasks (Tasks_init file)"
proof -
  have a: "pickle_file (pickle_tasks self) = Some (tasks self)"
    by (simp add: pickle_tasks_def)
  have b: "mset (tasks (Tasks_init (pickle_file (pickle_tasks self)))) = mset (tasks self)"
    by (simp add: pickle_tasks_def Tasks_init_def)
  have c: "sorted (map (\<lambda>t. dt_key (created t)) (tasks self))
        \<longrightarrow> tasks (Tasks_init (pickle_file (pickle_tasks self))) = tasks self"
    using Tasks_init_sorted by (simp add: pickle_tasks_def)
  have "sorted (map (\<lambda>t. dt_key (created t)) (tasks (Tasks_init file)))"
    by (rule Tasks_init_created_sorted)
  then have d: "tasks (Tasks_init (pickle_file (pickle_tasks (Tasks_init file))))
       = tasks (Tasks_init file)"
    using Tasks_init_sorted by (simp add: pickle_tasks_def)
  show ?thesis using a b c d by blast
qed

theorem pickle_round_trip_witness:
  "sorted (map (\<lambda>t. dt_key (created t)) (tasks ex_store))
   \<and> tasks (Tasks_init (pickle_file (pickle_tasks ex_store))) = tasks ex_store
   \<and> tasks ex_store = [ex_t1, ex_t2, ex_t3]"
proof -
  have s: "sorted (map (\<lambda>t. dt_key (created t)) (tasks ex_store))"
    unfolding ex_store_def by (rule Tasks_init_created_sorted)
  show ?thesis
    using pickle_round_trip[of ex_store None] s ex_store_tasks by blast
qed

lemma underscore_not_digit: "\<not> is_digit (CHR ''_'')" "\<not> is_digit (CHR ''-'')"
  "\<not> is_digit (CHR ''+'')"
  by (simp_all add: is_digit_def digit_val_def)

lemma int_digits_all_digits:
  "list_all is_digit s \<Longrightarrow> \<exists>v. int_digits s acc = Some v"
proof (induction s acc rule: int_digits.induct)
  case (1 acc)
  then show ?case by simp
next
  case (2 c acc)
  then show ?case by (auto simp: is_digit_def)
next
  case (3 c d ds acc)
  from "3.prems" have c: "is_digit c" and r: "list_all is_digit (d # ds)" by simp_all
  from c obtain v where v: "digit_val c = Some v" by (auto simp: is_digit_def)
  have "c \<noteq> CHR ''_''" using c underscore_not_digit(1) by auto
  then show ?case using "3.IH"(2)[OF _ v r] v by simp
qed

lemma digit_not_int_space: "is_digit c \<Longrightarrow> \<not> int_space c"
  by (auto simp: is_digit_def digit_val_def int_space_def Let_def split: if_splits)

lemma int_strip_no_space:
  assumes "s \<noteq> []" "\<not> int_space (hd s)" "\<not> int_space (last s)"
  shows "int_strip s = s"
proof -
  have a: "dropWhile int_space s = s"
    using assms(1,2) by (cases s) simp_all
  obtain x xs where r: "rev s = x # xs" using assms(1) by (cases "rev s") auto
  then have "x = last s" using assms(1) by (metis hd_rev list.sel(1))
  then have b: "dropWhile int_space (rev s) = rev s"
    using assms(3) unfolding r by simp
  show ?thesis unfolding int_strip_def a b by simp
qed

lemma py_int_all_digits:
  assumes "s \<noteq> []" "list_all is_digit s" "length s \<le> MAX_STR_DIGITS"
  shows "\<exists>i. py_int s = Some i"
proof -
  obtain c cs where s: "s = c # cs" using assms(1) by (cases s) auto
  have c: "is_digit c" and cs: "list_all is_digit cs" using assms(2) s by simp_all
  have "is_digit (hd s)" "is_digit (last s)"
    using assms by (simp_all add: list_all_iff)
  then have st: "int_strip s = s"
    using int_strip_no_space[OF assms(1)] digit_not_int_space by blast
  obtain v where v: "digit_val c = Some v" using c by (auto simp: is_digit_def)
  obtain i where i: "int_digits cs v = Some i" using int_digits_all_digits[OF cs] by blast
  have "c \<noteq> CHR ''-''" "c \<noteq> CHR ''+''" using c underscore_not_digit by auto
  have "length (filter is_digit s) \<le> length s" by simp
  then have "\<not> length (filter is_digit (c # cs)) > MAX_STR_DIGITS"
    using assms(3) s by simp
  then have "py_int s = Some i"
    using \<open>c \<noteq> CHR ''-''\<close> \<open>c \<noteq> CHR ''+''\<close>
    unfolding py_int_def st by (simp add: s int_unsigned_def v i)
  then show ?thesis by blast
qed

lemma dropWhile_keeps: "x \<in> set xs \<Longrightarrow> \<not> P x \<Longrightarrow> x \<in> set (dropWhile P xs)"
  by (induction xs) auto

lemma int_strip_keeps:
  assumes "c \<in> set s" "\<not> int_space c" shows "c \<in> set (int_strip s)"
proof -
  have "c \<in> set (dropWhile int_space s)"
    using assms by (rule dropWhile_keeps[where P = int_space])
  then have "c \<in> set (rev (dropWhile int_space s))" by simp
  then have "c \<in> set (dropWhile int_space (rev (dropWhile int_space s)))"
    using assms(2) by (rule dropWhile_keeps[where P = int_space])
  then show ?thesis by (simp add: int_strip_def)
qed

lemma int_digits_chars:
  "int_digits cs acc = Some v \<Longrightarrow> c \<in> set cs \<Longrightarrow> is_digit c \<or> c = CHR ''_''"
proof (induction cs acc arbitrary: v rule: int_digits.induct)
  case (1 acc)
  then show ?case by simp
next
  case (2 x acc)
  then show ?case by (auto simp: is_digit_def split: option.splits)
next
  case (3 x d ds acc)
  show ?case
  proof (cases "x = CHR ''_''")
    case True
    then obtain w where w: "digit_val d = Some w" "int_digits ds (acc * 10 + w) = Some v"
      using "3.prems"(1) by (auto split: option.splits)
    have "is_digit d" using w(1) by (simp add: is_digit_def)
    then show ?thesis
      using "3.IH"(1)[OF True w(1) w(2)] "3.prems"(2) True by auto
  next
    case False
    then obtain w where w: "digit_val x = Some w" "int_digits (d # ds) (acc * 10 + w) = Some v"
      using "3.prems"(1) by (auto split: option.splits)
    have "is_digit x" using w(1) by (simp add: is_digit_def)
    then show ?thesis
      using "3.IH"(2)[OF False w(1) w(2)] "3.prems"(2) by auto
  qed
qed

lemma int_unsigned_chars:
  assumes "int_unsigned s = Some v" "c \<in> set s" shows "is_digit c \<or> c = CHR ''_''"
proof (cases s)
  case Nil
  then show ?thesis using assms by simp
next
  case (Cons x xs)
  then obtain w where w: "digit_val x = Some w" "int_digits xs w = Some v"
    using assms(1) by (auto simp: int_unsigned_def split: option.splits)
  have "is_digit x" using w(1) by (simp add: is_digit_def)
  then show ?thesis using int_digits_chars[OF w(2)] assms(2) Cons by auto
qed

lemma py_int_chars:
  assumes "py_int s = Some i" "c \<in> set s"
  shows "is_digit c \<or> c = CHR ''_'' \<or> c = CHR ''-'' \<or> c = CHR ''+'' \<or> int_space c"
proof (rule ccontr)
  assume n: "\<not> ?thesis"
  then have m: "c \<in> set (int_strip s)" using int_strip_keeps[OF assms(2)] by blast
  then obtain x xs where x: "int_strip s = x # xs" by (cases "int_strip s") auto
  have "\<exists>v. (int_unsigned xs = Some v \<and> (x = CHR ''-'' \<or> x = CHR ''+''))
          \<or> int_unsigned (x # xs) = Some v"
    using assms(1) unfolding py_int_def x by (auto split: if_splits)
  then show False
    using int_unsigned_chars[of xs _ c] int_unsigned_chars[of "x # xs" _ c] m n
    unfolding x by auto
qed

text \<open>
  C9. When the id is not text that \<^verbatim>\<open>int\<close> converts, done and delete raise the
  \<^verbatim>\<open>ValueError\<close> of the conversion, and only then: nothing is written, the
  collection and the file are as before. Every text of one to 4300 decimal digits is
  converted, and no text with a character other than a digit, an underscore, a sign and
  the whitespace that \<^verbatim>\<open>int\<close> drops. The report that the task was not found is given
  for an id that is converted and is the id of no task.
\<close>

theorem id_not_an_integer:
  "(py_int s = None
      \<longrightarrow> done_task now s self = (Inl ValueError, self)
          \<and> delete s self = (Inl ValueError, self))
   \<and> (fst (done_task now s self) = Inl ValueError \<longleftrightarrow> py_int s = None)
   \<and> (fst (delete s self) = Inl ValueError \<longleftrightarrow> py_int s = None)
   \<and> (fst (done_task now s self) = Inr Not_found
        \<longleftrightarrow> (\<exists>i. py_int s = Some i \<and> i \<notin> id_task ` set (tasks self)))
   \<and> (fst (delete s self) = Inr Not_found
        \<longleftrightarrow> (\<exists>i. py_int s = Some i \<and> i \<notin> id_task ` set (tasks self)))
   \<and> (s \<noteq> [] \<and> list_all is_digit s \<and> length s \<le> MAX_STR_DIGITS \<longrightarrow> py_int s \<noteq> None)
   \<and> ((\<exists>c \<in> set s. \<not> is_digit c \<and> c \<noteq> CHR ''_'' \<and> c \<noteq> CHR ''-'' \<and> c \<noteq> CHR ''+''
                     \<and> \<not> int_space c)
        \<longrightarrow> py_int s = None)"
proof (cases "py_int s")
  case None
  then show ?thesis
    using py_int_all_digits[of s] by (auto simp: done_task_def delete_def)
next
  case (Some i)
  have d: "fst (done_task now s self) = Inr Not_found \<longleftrightarrow> i \<notin> id_task ` set (tasks self)"
  proof (cases "find_first (\<lambda>t. id_task t = i) (tasks self)")
    case None
    then show ?thesis
      using done_task_missing[OF Some None, of now] by (auto simp: find_first_None)
  next
    case (Some k)
    then have "id_task (tasks self ! k) = i" "k < length (tasks self)"
      using find_first_Some by fastforce+
    then have "i \<in> id_task ` set (tasks self)" by (metis imageI nth_mem)
    then show ?thesis
      using done_task_found[OF \<open>py_int s = Some i\<close> Some, of now] by simp
  qed
  have e: "fst (done_task now s self) \<noteq> Inl ValueError"
    using Some by (simp add: done_task_def Let_def split: option.splits)
  have l: "length (filter (\<lambda>t. id_task t \<noteq> i) (tasks self)) < length (tasks self)
           \<longleftrightarrow> i \<in> id_task ` set (tasks self)"
  proof
    assume "length (filter (\<lambda>t. id_task t \<noteq> i) (tasks self)) < length (tasks self)"
    then have "filter (\<lambda>t. id_task t \<noteq> i) (tasks self) \<noteq> tasks self" by auto
    then show "i \<in> id_task ` set (tasks self)" by (auto simp: filter_id_conv)
  next
    assume "i \<in> id_task ` set (tasks self)"
    then show "length (filter (\<lambda>t. id_task t \<noteq> i) (tasks self)) < length (tasks self)"
      by (auto intro: length_filter_less)
  qed
  have f: "fst (delete s self) = Inr Not_found \<longleftrightarrow> i \<notin> id_task ` set (tasks self)"
    "fst (delete s self) \<noteq> Inl ValueError"
    using Some l by (simp_all add: delete_def Let_def)
  have g: "\<not> (\<exists>c \<in> set s. \<not> is_digit c \<and> c \<noteq> CHR ''_'' \<and> c \<noteq> CHR ''-'' \<and> c \<noteq> CHR ''+''
                     \<and> \<not> int_space c)"
    using py_int_chars[OF Some] by blast
  show ?thesis using Some d e f g by simp
qed

theorem id_not_an_integer_witness:
  "CHR 0x1C \<in> set (CHR 0x1C # ''102'') \<and> \<not> is_digit (CHR 0x1C) \<and> \<not> int_space (CHR 0x1C)
   \<and> py_int (CHR 0x1C # ''102'') = None
   \<and> done_task ex_now (CHR 0x1C # ''102'') ex_store = (Inl ValueError, ex_store)
   \<and> delete (CHR 0x1C # ''102'') ex_store = (Inl ValueError, ex_store)
   \<and> py_int ''12a'' = None
   \<and> done_task ex_now ''12a'' ex_store = (Inl ValueError, ex_store)
   \<and> delete ''12a'' ex_store = (Inl ValueError, ex_store)
   \<and> ''7'' \<noteq> [] \<and> list_all is_digit ''7'' \<and> length ''7'' \<le> MAX_STR_DIGITS
   \<and> py_int ''7'' \<noteq> None"
proof -
  have c: "CHR 0x1C \<in> set (CHR 0x1C # ''102'')" "\<not> is_digit (CHR 0x1C)"
    "\<not> int_space (CHR 0x1C)" "CHR 0x1C \<noteq> CHR ''_''" "CHR 0x1C \<noteq> CHR ''-''"
    "CHR 0x1C \<noteq> CHR ''+''"
    by (simp_all add: is_digit_def digit_val_def int_space_def)
  have n: "py_int ''12a'' = None" by code_simp
  have d: "''7'' \<noteq> [] \<and> list_all is_digit ''7'' \<and> length ''7'' \<le> MAX_STR_DIGITS"
    by (simp add: is_digit_def digit_val_def MAX_STR_DIGITS_def)
  have m: "py_int (CHR 0x1C # ''102'') = None"
    using id_not_an_integer[of "CHR 0x1C # ''102''" ex_now ex_store] c by blast
  have a1: "done_task ex_now (CHR 0x1C # ''102'') ex_store = (Inl ValueError, ex_store)"
    "delete (CHR 0x1C # ''102'') ex_store = (Inl ValueError, ex_store)"
    using id_not_an_integer[of "CHR 0x1C # ''102''" ex_now ex_store] m by blast+
  have a2: "done_task ex_now ''12a'' ex_store = (Inl ValueError, ex_store)"
    "delete ''12a'' ex_store = (Inl ValueError, ex_store)"
    using id_not_an_integer[of "''12a''" ex_now ex_store] n by blast+
  have a3: "py_int ''7'' \<noteq> None"
    using id_not_an_integer[of "''7''" ex_now ex_store] d by blast
  show ?thesis
    using c(1,2,3) m a1 n a2 d a3 by blast
qed

section \<open>The order of the tables\<close>

lemma datetime_max_greatest: "valid_datetime d \<Longrightarrow> dt_key d \<le> dt_key datetime_max"
  by (auto simp: valid_datetime_def dt_key_def datetime_max_def)

lemma strptime_valid:
  assumes "strptime s = Inr x" shows "valid_datetime x \<and> time_us x = 0"
proof (cases "re_match s")
  case Nil
  then show ?thesis using assms by (simp add: strptime_def)
next
  case (Cons a as)
  obtain m d y r where a: "a = (m, d, y, r)" by (cases a) auto
  have n: "datetime_new y m d = Inr x"
    using assms Cons a by (simp add: strptime_def split: if_splits)
  then have v: "1 \<le> y" "y \<le> 9999" "1 \<le> m" "m \<le> 12" "1 \<le> d" "d \<le> days_in_month y m"
    and x: "x = \<lparr>toordinal = ymd2ord y m d, time_us = 0\<rparr>"
    by (auto simp: datetime_new_def split: if_splits)
  show ?thesis
    using ymd2ord_range[OF v] unfolding x by (simp add: valid_datetime_def US_PER_DAY_def)
qed

lemma parse_before_max:
  assumes v: "valid_datetime now" and c: "toordinal now + 7 < MAXORDINAL"
    and p: "parse_due_date now s = Inr (Some d)"
  shows "dt_key d < dt_key datetime_max"
proof -
  have c': "toordinal now + 7 \<le> MAXORDINAL" using c by simp
  have rel: "dt_key (now\<lparr>toordinal := toordinal now + k\<rparr>) < dt_key datetime_max"
    if "k \<le> 7" for k
    using that c by (simp add: dt_key_def datetime_max_def)
  show ?thesis
  proof (cases "\<exists>x. strptime s = Inr x")
    case True
    then obtain x where x: "strptime s = Inr x" by blast
    then have "d = x" using parse_strptime_ok[OF x, of now] p by simp
    then show ?thesis
      using strptime_valid[OF x]
      by (simp add: dt_key_def datetime_max_def valid_datetime_def US_PER_DAY_def)
  next
    case False
    then have n: "\<forall>x. strptime s \<noteq> Inr x" by simp
    show ?thesis
    proof (cases "lower (strip s) = ''tomorrow''")
      case True
      from parse_tomorrow_result[OF True v c'] p rel[of 1] show ?thesis by simp
    next
      case nt: False
      show ?thesis
      proof (cases "lower (strip s) \<in> set weekdays")
        case True
        from parse_weekday_result[OF True v c'] p rel show ?thesis by auto
      next
        case False
        from parse_unrecognised[OF n nt False, of now] p show ?thesis by simp
      qed
    qed
  qed
qed

lemma add_due_before_max:
  assumes v: "valid_datetime now" and c: "toordinal now + 7 < MAXORDINAL"
    and a: "add now uuid now' nm due prio self = (Inr p, self')"
  shows "\<exists>t. tasks self' = tasks self @ [t] \<and> pickle_file self' = Some (tasks self')
           \<and> p = Created uuid \<and> id_task t = uuid \<and> name t = nm \<and> priority t = prio
           \<and> completed t = None
           \<and> (\<forall>d. due_date t = Some d \<longrightarrow> dt_key d < dt_key datetime_max)"
proof -
  define r where "r = (case due of None \<Rightarrow> Inr None
            | Some s \<Rightarrow> if s = [] then Inr None else parse_due_date now s)"
  obtain dd where dd: "r = Inr dd"
    using a unfolding add_def r_def[symmetric] by (cases r) auto
  have b: "\<forall>d. dd = Some d \<longrightarrow> dt_key d < dt_key datetime_max"
    using dd parse_before_max[OF v c] unfolding r_def
    by (auto split: option.splits if_splits)
  define t where "t = Task_init uuid now' nm prio dd"
  have "self' = pickle_tasks (self\<lparr>tasks := tasks self @ [t]\<rparr>)" "p = Created (id_task t)"
    using a dd unfolding add_def r_def[symmetric] t_def by (simp_all add: Let_def)
  then show ?thesis
    using b unfolding t_def Task_init_def pickle_tasks_def by auto
qed

text \<open>
  C1. The order shared by list, report and query: ascending due date with an absent due
  date counted as \<^verbatim>\<open>datetime.max\<close>, the greatest datetime, so that a task without
  due date follows every task due before that instant, as every due date is that add
  stores; then descending priority; tasks of the same due date and priority stay in
  the order of the collection, which the load sorts by creation time.
\<close>

theorem listing_order_shared:
  "spec_listing_order (filter (\<lambda>t. \<not> is_done t) (tasks self)) (list_tasks self)
   \<and> spec_listing_order (tasks self) (report self)
   \<and> spec_listing_order
        (filter (\<lambda>t. \<not> is_done t
                   \<and> list_ex (\<lambda>trm. sublist (lower trm) (lower (name t))) terms) (tasks self))
        (query terms self)
   \<and> (\<forall>t. due_date t = None \<longrightarrow> due_or_max t = datetime_max)
   \<and> (\<forall>d. valid_datetime d \<longrightarrow> dt_key d \<le> dt_key datetime_max)
   \<and> (valid_datetime now \<and> toordinal now + 7 < MAXORDINAL
        \<and> add now uuid now' nm due prio self = (Inr p, self')
      \<longrightarrow> (\<exists>t. tasks self' = tasks self @ [t]
            \<and> (\<forall>d. due_date t = Some d \<longrightarrow> dt_key d < dt_key datetime_max)))
   \<and> sorted (map (\<lambda>t. dt_key (created t)) (tasks (Tasks_init file)))"
proof -
  have a: "spec_listing_order (filter (\<lambda>t. \<not> is_done t) (tasks self)) (list_tasks self)"
    "spec_listing_order (tasks self) (report self)"
    "spec_listing_order
        (filter (\<lambda>t. \<not> is_done t
                   \<and> list_ex (\<lambda>trm. sublist (lower trm) (lower (name t))) terms) (tasks self))
        (query terms self)"
    unfolding list_tasks_def report_def query_def by (rule sort_key_listing_order)+
  have b: "\<forall>t. due_date t = None \<longrightarrow> due_or_max t = datetime_max"
    by (simp add: due_or_max_def)
  have c: "\<forall>d. valid_datetime d \<longrightarrow> dt_key d \<le> dt_key datetime_max"
    using datetime_max_greatest by blast
  have d: "valid_datetime now \<and> toordinal now + 7 < MAXORDINAL
        \<and> add now uuid now' nm due prio self = (Inr p, self')
      \<longrightarrow> (\<exists>t. tasks self' = tasks self @ [t]
            \<and> (\<forall>d. due_date t = Some d \<longrightarrow> dt_key d < dt_key datetime_max))"
    using add_due_before_max[of now uuid now' nm due prio self p self'] by blast
  have e: "sorted (map (\<lambda>t. dt_key (created t)) (tasks (Tasks_init file)))"
    by (rule Tasks_init_created_sorted)
  show ?thesis using a b c d e by blast
qed

theorem listing_order_shared_witness:
  "list_tasks ex_store = [ex_t3, ex_t2, ex_t1]
   \<and> (0::nat) < 2 \<and> 2 < length (list_tasks ex_store)
   \<and> due_date (list_tasks ex_store ! 2) = None
   \<and> due_date (list_tasks ex_store ! 0) = Some \<lparr>toordinal = 739261, time_us = 0\<rparr>
   \<and> dt_key \<lparr>toordinal = 739261, time_us = 0\<rparr> < dt_key datetime_max
   \<and> due_date ex_t1 = None
   \<and> spec_listing_order (filter (\<lambda>t. \<not> is_done t) (tasks ex_store)) (list_tasks ex_store)
   \<and> due_or_max ex_t1 = datetime_max"
proof -
  have l: "list_tasks ex_store = [ex_t3, ex_t2, ex_t1]" by (rule ex_store_list)
  have h: "due_date ex_t1 = None" "due_date ex_t3 = Some \<lparr>toordinal = 739261, time_us = 0\<rparr>"
    by (simp_all add: ex_t1_def ex_t3_def)
  have k: "dt_key \<lparr>toordinal = 739261, time_us = 0\<rparr> < dt_key datetime_max"
    by (simp add: dt_key_def datetime_max_def MAXORDINAL_def)
  have o: "spec_listing_order (filter (\<lambda>t. \<not> is_done t) (tasks ex_store)) (list_tasks ex_store)"
    "due_or_max ex_t1 = datetime_max"
    using listing_order_shared[where self = ex_store] h(1) by blast+
  show ?thesis
    using o l h k by simp
qed

end
